theory Spec2Isabelle
  imports Complex_Main "HOL-Library.Multiset" "HOL-Library.Log_Nat"
begin

section \<open>The chained hash table of Project2/hashtable.hpp\<close>

text \<open>
  The class \<^verbatim>\<open>HashTable<Key, Value, Hash, KeyEqual>\<close> is embedded with explicit state
  passing. The conventions of the embedding:
  \<^item> \<^verbatim>\<open>buckets\<close>, a vector of forward lists, is a list of lists of key/value pairs;
    a vector iterator is the index of its bucket, and \<^verbatim>\<open>buckets.end()\<close> is the
    number of buckets;
  \<^item> a forward-list iterator is a pair (bucket index, position): position \<open>0\<close> is
    \<^verbatim>\<open>before_begin()\<close> and position \<open>Suc i\<close> is the node of index \<open>i\<close>, so that the
    iterator at position \<open>p\<close> stands before the element of index \<open>p\<close>;
  \<^item> \<^verbatim>\<open>size_t\<close> is \<open>nat\<close>: the counter counts nodes held in memory and the bucket
    numbers come from the size table, so that no sum or product reaches \<open>2 ^ 64\<close>; the
    one subtraction, \<^verbatim>\<open>--tableSize\<close>, has its wrap-around written out;
  \<^item> \<^verbatim>\<open>double\<close> is the type \<open>dbl\<close> of the binary64 values: the finite ones as
    rationals, the two infinities and not-a-number; a conversion or a division rounds
    to the nearest value, ties to the even mantissa (function \<open>round_dbl\<close>); the sign
    of a zero is not kept;
  \<^item> the template parameter \<^verbatim>\<open>Hash\<close> is a parameter \<open>h\<close> of the functions,
    \<^verbatim>\<open>KeyEqual\<close> is its default \<^verbatim>\<open>std::equal_to\<close>, that is equality;
  \<^item> the table \<^verbatim>\<open>HashPrime::g_a_sizes\<close> of hash\_prime.hpp is a parameter \<open>sizes\<close>,
    and \<^verbatim>\<open>HashPrime::num_distinct_sizes\<close> is its length;
  \<^item> a thrown exception and undefined behaviour are values of type \<open>error\<close>; the
    functions that can fail return \<open>error + 'a\<close>.
\<close>

subsection \<open>Errors and doubles\<close>

datatype error =
    range_error string      \<comment> \<open>\<^verbatim>\<open>std::range_error\<close> with its message\<close>
  | undefined_behaviour     \<comment> \<open>\<^verbatim>\<open>hash(key) % 0\<close>, a read through an invalid iterator\<close>
  | out_of_fuel             \<comment> \<open>the nesting bound of the model is used up\<close>

fun is_range_error :: "error \<Rightarrow> bool" where
  "is_range_error (range_error m) = True"
| "is_range_error undefined_behaviour = False"
| "is_range_error out_of_fuel = False"

datatype dbl = Finite rat | PInf | NInf | NaN

text \<open>
  The binade of a positive rational \<open>x\<close> is the integer \<open>e\<close> with
  \<open>2 ^ e \<le> x < 2 ^ (e + 1)\<close>. A binary64 value has a mantissa of 53 bits, so that the
  values around \<open>x\<close> are the multiples of \<open>2 ^ (e - 52)\<close>, and of \<open>2 ^ - 1074\<close> below
  the normal range; a result of binade 1024 or more is an infinity.
\<close>

definition binade :: "rat \<Rightarrow> int" where
  "binade x = (if 1 \<le> x then bitlen \<lfloor>x\<rfloor> - 1 else - bitlen (\<lceil>1 / x\<rceil> - 1))"

definition round_even :: "rat \<Rightarrow> int" where
  "round_even y =
     (let f = \<lfloor>y\<rfloor>; r = y - of_int f
      in if r < 1 / 2 then f else if 1 / 2 < r then f + 1 else if even f then f else f + 1)"

definition round_pos :: "rat \<Rightarrow> dbl" where
  "round_pos x =
     (let q = max (binade x - 52) (- 1074);
          r = of_int (round_even (x / 2 powi q)) * 2 powi q
      in if r = 0 then Finite 0 else if 1024 \<le> binade r then PInf else Finite r)"

definition round_dbl :: "rat \<Rightarrow> dbl" where
  "round_dbl x =
     (if x = 0 then Finite 0
      else if 0 < x then round_pos x
      else (case round_pos (- x) of Finite r \<Rightarrow> Finite (- r) | _ \<Rightarrow> NInf))"

text \<open>\<^verbatim>\<open>static_cast<double>(n)\<close> of a \<^verbatim>\<open>size_t\<close>, and the same conversion where a
  \<^verbatim>\<open>size_t\<close> meets a double in a comparison.\<close>

definition of_size :: "nat \<Rightarrow> dbl" where
  "of_size n = round_dbl (of_nat n)"

text \<open>The division of doubles.\<close>

fun dbl_div :: "dbl \<Rightarrow> dbl \<Rightarrow> dbl" where
  "dbl_div NaN y = NaN"
| "dbl_div (Finite x) NaN = NaN"
| "dbl_div PInf NaN = NaN"
| "dbl_div NInf NaN = NaN"
| "dbl_div (Finite x) (Finite y) =
     (if y = 0 then (if x = 0 then NaN else if 0 < x then PInf else NInf)
      else round_dbl (x / y))"
| "dbl_div (Finite x) PInf = Finite 0"
| "dbl_div (Finite x) NInf = Finite 0"
| "dbl_div PInf (Finite y) = (if 0 \<le> y then PInf else NInf)"
| "dbl_div NInf (Finite y) = (if 0 \<le> y then NInf else PInf)"
| "dbl_div PInf PInf = NaN"
| "dbl_div PInf NInf = NaN"
| "dbl_div NInf PInf = NaN"
| "dbl_div NInf NInf = NaN"

text \<open>The comparisons \<^verbatim>\<open><\<close> and \<^verbatim>\<open><=\<close> of doubles: false as soon as one side is not a
  number. \<^verbatim>\<open>a > b\<close> is \<open>dbl_less b a\<close> and \<^verbatim>\<open>a >= b\<close> is \<open>dbl_le b a\<close>.\<close>

fun dbl_less :: "dbl \<Rightarrow> dbl \<Rightarrow> bool" where
  "dbl_less NaN b = False"
| "dbl_less (Finite x) NaN = False"
| "dbl_less PInf NaN = False"
| "dbl_less NInf NaN = False"
| "dbl_less (Finite x) (Finite y) = (x < y)"
| "dbl_less (Finite x) PInf = True"
| "dbl_less (Finite x) NInf = False"
| "dbl_less PInf b = False"
| "dbl_less NInf (Finite y) = True"
| "dbl_less NInf PInf = True"
| "dbl_less NInf NInf = False"

fun dbl_le :: "dbl \<Rightarrow> dbl \<Rightarrow> bool" where
  "dbl_le NaN b = False"
| "dbl_le (Finite x) NaN = False"
| "dbl_le PInf NaN = False"
| "dbl_le NInf NaN = False"
| "dbl_le (Finite x) (Finite y) = (x \<le> y)"
| "dbl_le (Finite x) PInf = True"
| "dbl_le (Finite x) NInf = False"
| "dbl_le PInf (Finite y) = False"
| "dbl_le PInf PInf = True"
| "dbl_le PInf NInf = False"
| "dbl_le NInf b = True"

definition dbl_gt :: "dbl \<Rightarrow> dbl \<Rightarrow> bool" where
  "dbl_gt a b = dbl_less b a"

definition dbl_ge :: "dbl \<Rightarrow> dbl \<Rightarrow> bool" where
  "dbl_ge a b = dbl_le b a"

text \<open>\<^verbatim>\<open>ceil\<close>: the result is a binary64 value again.\<close>

fun dceil :: "dbl \<Rightarrow> dbl" where
  "dceil (Finite x) = Finite (of_int \<lceil>x\<rceil>)"
| "dceil PInf = PInf"
| "dceil NInf = NInf"
| "dceil NaN = NaN"

text \<open>\<^verbatim>\<open>*it < bound\<close> of \<^verbatim>\<open>std::lower_bound\<close>: a size compared with a double.\<close>

definition size_less :: "nat \<Rightarrow> dbl \<Rightarrow> bool" where
  "size_less s bound = dbl_less (of_size s) bound"

text \<open>
  \<^verbatim>\<open>std::lower_bound(first, last, bound)\<close>: the first element that is not less than
  the bound, \<open>None\<close> for \<^verbatim>\<open>last\<close>. The library searches by bisection, which finds this
  element on an ascending table.
\<close>

fun lower_bound :: "nat list \<Rightarrow> dbl \<Rightarrow> nat option" where
  "lower_bound [] bound = None"
| "lower_bound (s # ss) bound = (if size_less s bound then lower_bound ss bound else Some s)"

subsection \<open>The table and its iterator\<close>

record ('k, 'v) HashTable =
  buckets :: "('k \<times> 'v) list list"
  firstBucketIt :: nat
  tableSize :: nat
  maxLoadFactor :: dbl

record Iterator =
  bucketIt :: nat
  listItBefore :: "nat \<times> nat"
  endFlag :: bool

definition DEFAULT_LOAD_FACTOR :: dbl where
  "DEFAULT_LOAD_FACTOR = Finite (1 / 2)"

definition DEFAULT_BUCKET_SIZE :: "nat list \<Rightarrow> nat" where
  "DEFAULT_BUCKET_SIZE sizes = sizes ! 0"

definition bucketSize :: "('k, 'v) HashTable \<Rightarrow> nat" where
  "bucketSize t = length (buckets t)"

definition loadFactor :: "('k, 'v) HashTable \<Rightarrow> dbl" where
  "loadFactor t = dbl_div (of_size (tableSize t)) (of_size (length (buckets t)))"

definition getMaxLoadFactor :: "('k, 'v) HashTable \<Rightarrow> dbl" where
  "getMaxLoadFactor t = maxLoadFactor t"

text \<open>\<^verbatim>\<open>Iterator(hashTable, vectorIt, listItBefore)\<close>\<close>

definition Iterator_at :: "('k, 'v) HashTable \<Rightarrow> nat \<Rightarrow> nat \<times> nat \<Rightarrow> Iterator" where
  "Iterator_at t vectorIt lb =
     \<lparr>bucketIt = vectorIt, listItBefore = lb, endFlag = (vectorIt = length (buckets t))\<rparr>"

text \<open>
  \<^verbatim>\<open>end()\<close> forms \<^verbatim>\<open>buckets.begin()->before_begin()\<close>, the position before the first
  bucket's chain, whether or not there is a bucket; nothing is read through it.
\<close>

definition end_it :: "('k, 'v) HashTable \<Rightarrow> Iterator" where
  "end_it t = Iterator_at t (length (buckets t)) (0, 0)"

definition begin_it :: "('k, 'v) HashTable \<Rightarrow> error + Iterator" where
  "begin_it t =
     (if firstBucketIt t \<noteq> length (buckets t) then
        (if firstBucketIt t < length (buckets t)
         then Inr (Iterator_at t (firstBucketIt t) (firstBucketIt t, 0))
         else Inl undefined_behaviour)
      else Inr (end_it t))"

definition it_eq :: "Iterator \<Rightarrow> Iterator \<Rightarrow> bool" where
  "it_eq a b =
     (if endFlag a \<and> endFlag b then True
      else if bucketIt a \<noteq> bucketIt b then False
      else listItBefore a = listItBefore b)"

definition it_neq :: "Iterator \<Rightarrow> Iterator \<Rightarrow> bool" where
  "it_neq a b =
     (if endFlag a \<and> endFlag b then False
      else if bucketIt a \<noteq> bucketIt b then True
      else listItBefore a \<noteq> listItBefore b)"

text \<open>\<^verbatim>\<open>*it\<close> and \<^verbatim>\<open>it->\<close>: the element after \<^verbatim>\<open>listItBefore\<close>.\<close>

definition deref :: "('k, 'v) HashTable \<Rightarrow> Iterator \<Rightarrow> error + ('k \<times> 'v)" where
  "deref t it =
     (case listItBefore it of (b, p) \<Rightarrow>
        if b < length (buckets t) \<and> p < length (buckets t ! b)
        then Inr (buckets t ! b ! p) else Inl undefined_behaviour)"

text \<open>
  The first non-empty bucket from index \<open>i\<close> on, the number of buckets when there is
  none: the loop \<^verbatim>\<open>while (++bucketIt != end)\<close> of \<^verbatim>\<open>increment\<close> and the loop of
  \<^verbatim>\<open>erase\<close>.
\<close>

function scan :: "'a list list \<Rightarrow> nat \<Rightarrow> nat" where
  "scan bs i =
     (if i \<ge> length bs then length bs
      else if bs ! i \<noteq> [] then i
      else scan bs (Suc i))"
  by pat_completeness auto
termination
  by (relation "measure (\<lambda>(bs, i). length bs - i)") auto

declare scan.simps [simp del]

definition increment :: "('k, 'v) HashTable \<Rightarrow> Iterator \<Rightarrow> error + Iterator" where
  "increment t it =
     (if bucketIt it = length (buckets t) then Inr (it\<lparr>endFlag := True\<rparr>)
      else if bucketIt it > length (buckets t) then Inl undefined_behaviour
      else
        (case listItBefore it of (b, p) \<Rightarrow>
           let chain = buckets t ! bucketIt it in
           if p > length chain then Inl undefined_behaviour
           else if p < length chain \<and> Suc p < length chain
           then Inr (it\<lparr>listItBefore := (b, Suc p)\<rparr>)
           else
             (let j = scan (buckets t) (Suc (bucketIt it)) in
              if j \<noteq> length (buckets t)
              then Inr (it\<lparr>bucketIt := j, listItBefore := (j, 0)\<rparr>)
              else Inr (it\<lparr>bucketIt := j, endFlag := True\<rparr>))))"

subsection \<open>Sizing\<close>

definition hashKey :: "('k \<Rightarrow> nat) \<Rightarrow> ('k, 'v) HashTable \<Rightarrow> 'k \<Rightarrow> error + nat" where
  "hashKey h t key =
     (if length (buckets t) = 0 then Inl undefined_behaviour
      else Inr (h key mod length (buckets t)))"

definition findMinimumBucketSize :: "nat list \<Rightarrow> ('k, 'v) HashTable \<Rightarrow> nat \<Rightarrow> error + nat" where
  "findMinimumBucketSize sizes t bucketSize' =
     (if dbl_ge (dbl_div (of_size (tableSize t)) (of_size (length (buckets t))))
           (maxLoadFactor t) then
        (let bound = dceil (dbl_div (of_size (tableSize t)) (maxLoadFactor t)) in
         case lower_bound sizes bound of
           None \<Rightarrow> Inl (range_error ''Out of range.'')
         | Some s \<Rightarrow> Inr s)
      else Inr bucketSize')"

subsection \<open>Construction\<close>

definition HashTable_default :: "nat list \<Rightarrow> ('k, 'v) HashTable" where
  "HashTable_default sizes =
     \<lparr>buckets = replicate (DEFAULT_BUCKET_SIZE sizes) [],
      firstBucketIt = DEFAULT_BUCKET_SIZE sizes,
      tableSize = 0,
      maxLoadFactor = DEFAULT_LOAD_FACTOR\<rparr>"

text \<open>
  \<^verbatim>\<open>HashTable(size_t bucketSize)\<close> calls \<^verbatim>\<open>findMinimumBucketSize\<close> on the table it is
  building, whose vector of buckets is still empty; \<^verbatim>\<open>firstBucketIt\<close> is not yet set
  there and not read.
\<close>

definition HashTable_sized :: "nat list \<Rightarrow> nat \<Rightarrow> error + ('k, 'v) HashTable" where
  "HashTable_sized sizes bucketSize' =
     (let t0 = \<lparr>buckets = [], firstBucketIt = 0, tableSize = 0,
                maxLoadFactor = DEFAULT_LOAD_FACTOR\<rparr>
      in case findMinimumBucketSize sizes t0 bucketSize' of
           Inl e \<Rightarrow> Inl e
         | Inr n \<Rightarrow> Inr (t0\<lparr>buckets := replicate n [], firstBucketIt := n\<rparr>))"

text \<open>Copy construction and assignment: the cursor keeps its offset.\<close>

definition HashTable_copy :: "('k, 'v) HashTable \<Rightarrow> ('k, 'v) HashTable" where
  "HashTable_copy that =
     \<lparr>buckets = buckets that,
      firstBucketIt = 0 + (firstBucketIt that - 0),
      tableSize = tableSize that,
      maxLoadFactor = maxLoadFactor that\<rparr>"

definition assign :: "('k, 'v) HashTable \<Rightarrow> ('k, 'v) HashTable \<Rightarrow> ('k, 'v) HashTable" where
  "assign this that =
     this\<lparr>buckets := buckets that,
          tableSize := tableSize that,
          maxLoadFactor := maxLoadFactor that,
          firstBucketIt := 0 + (firstBucketIt that - 0)\<rparr>"

subsection \<open>Lookup\<close>

text \<open>
  The loop of \<^verbatim>\<open>find\<close>: \<^verbatim>\<open>it1\<close> walks the chain and \<^verbatim>\<open>it\<close>, one node behind, is at
  position \<open>p\<close>.
\<close>

fun find_loop :: "'k \<Rightarrow> ('k \<times> 'v) list \<Rightarrow> nat \<Rightarrow> nat option" where
  "find_loop key [] p = None"
| "find_loop key (e # es) p = (if fst e = key then Some p else find_loop key es (Suc p))"

definition find_key ::
  "('k \<Rightarrow> nat) \<Rightarrow> ('k, 'v) HashTable \<Rightarrow> 'k \<Rightarrow> error + (Iterator \<times> ('k, 'v) HashTable)" where
  "find_key h t key =
     (case hashKey h t key of
        Inl e \<Rightarrow> Inl e
      | Inr b \<Rightarrow>
          (case find_loop key (buckets t ! b) 0 of
             Some p \<Rightarrow> Inr (Iterator_at t b (b, p), t)
           | None \<Rightarrow> Inr (Iterator_at t (length (buckets t)) (0, 0), t)))"

definition contains ::
  "('k \<Rightarrow> nat) \<Rightarrow> ('k, 'v) HashTable \<Rightarrow> 'k \<Rightarrow> error + (bool \<times> ('k, 'v) HashTable)" where
  "contains h t key =
     (case find_key h t key of
        Inl e \<Rightarrow> Inl e
      | Inr (it, t1) \<Rightarrow> Inr (it_neq it (end_it t1), t1))"

subsection \<open>Insertion and rehashing\<close>

text \<open>
  The loop \<^verbatim>\<open>for (Iterator it = begin(); !it.endFlag; ++it)\<close> of \<^verbatim>\<open>rehash\<close>, which
  pushes \<^verbatim>\<open>*it\<close> onto \<^verbatim>\<open>vec\<close>. It ends because \<^verbatim>\<open>increment\<close> moves forward in the
  order of (bucket, position).
\<close>

lemma scan_bounds: "i \<le> length bs \<Longrightarrow> i \<le> scan bs i \<and> scan bs i \<le> length bs"
proof (induction bs i rule: scan.induct)
  case (1 bs i)
  then show ?case
    by (subst (1 2) scan.simps) auto
qed

definition it_rank :: "('k, 'v) HashTable \<Rightarrow> Iterator \<Rightarrow> nat \<times> nat \<times> nat" where
  "it_rank t it =
     ((if endFlag it then 0 else 1),
      length (buckets t) - bucketIt it,
      Suc (length (buckets t ! bucketIt it)) - snd (listItBefore it))"

lemma increment_rank:
  assumes "\<not> endFlag it" and "increment t it = Inr it'"
  shows "(it_rank t it', it_rank t it) \<in> less_than <*lex*> less_than <*lex*> less_than"
proof (cases "bucketIt it = length (buckets t)")
  case True
  with assms show ?thesis
    by (auto simp: increment_def it_rank_def)
next
  case False
  with assms have lt: "bucketIt it < length (buckets t)"
    by (auto simp: increment_def split: if_splits)
  obtain b p where lb: "listItBefore it = (b, p)"
    by (cases "listItBefore it")
  have sc: "Suc (bucketIt it) \<le> scan (buckets t) (Suc (bucketIt it))"
    using scan_bounds [of "Suc (bucketIt it)" "buckets t"] lt by simp
  from assms lt lb sc show ?thesis
    by (auto simp: increment_def it_rank_def Let_def split: if_splits)
qed

function drain_loop :: "('k, 'v) HashTable \<Rightarrow> Iterator \<Rightarrow> error + ('k \<times> 'v) list" where
  "drain_loop t it =
     (if endFlag it then Inr []
      else
        (case deref t it of
           Inl e \<Rightarrow> Inl e
         | Inr x \<Rightarrow>
             (case increment t it of
                Inl e \<Rightarrow> Inl e
              | Inr it' \<Rightarrow>
                  (case drain_loop t it' of
                     Inl e \<Rightarrow> Inl e
                   | Inr xs \<Rightarrow> Inr (x # xs)))))"
  by pat_completeness auto
termination
proof (relation "inv_image (less_than <*lex*> less_than <*lex*> less_than) (\<lambda>(t, it). it_rank t it)")
  show "wf (inv_image (less_than <*lex*> less_than <*lex*> less_than) (\<lambda>(t, it). it_rank t it))"
    by (intro wf_inv_image wf_lex_prod wf_less_than)
next
  fix t :: "('k, 'v) HashTable" and it x it'
  assume "\<not> endFlag it" and "increment t it = Inr it'"
  then have "(it_rank t it', it_rank t it) \<in> less_than <*lex*> less_than <*lex*> less_than"
    by (rule increment_rank)
  then show "((t, it'), (t, it)) \<in> inv_image (less_than <*lex*> less_than <*lex*> less_than) (\<lambda>(t, it). it_rank t it)"
    by simp
qed

declare drain_loop.simps [simp del]

definition drain :: "('k, 'v) HashTable \<Rightarrow> error + ('k \<times> 'v) list" where
  "drain t = (case begin_it t of Inl e \<Rightarrow> Inl e | Inr it \<Rightarrow> drain_loop t it)"

text \<open>
  \<^verbatim>\<open>insert(it, key, value)\<close>, \<^verbatim>\<open>insert(key, value)\<close> and \<^verbatim>\<open>rehash\<close> call each other:
  an insertion that overloads the table rehashes it, and \<^verbatim>\<open>rehash\<close> inserts every
  entry again. The bodies of the two insertions take the rehash they call as an
  argument \<open>rehash'\<close>, the last loop of \<^verbatim>\<open>rehash\<close> (function \<open>reinsert\<close>) takes the
  insertion it calls, and \<open>rehash\<close> ties the knot by recursion on its first argument,
  which bounds the depth of rehashes within rehashes.
\<close>

definition insert_it_with ::
    "(('k, 'v) HashTable \<Rightarrow> nat \<Rightarrow> error + ('k, 'v) HashTable)
       \<Rightarrow> ('k \<Rightarrow> nat) \<Rightarrow> ('k, 'v) HashTable \<Rightarrow> Iterator \<Rightarrow> 'k \<Rightarrow> 'v
       \<Rightarrow> error + (bool \<times> ('k, 'v) HashTable)" where
  "insert_it_with rehash' h t it key val =
     (if endFlag it then
        (let t1 = t\<lparr>tableSize := tableSize t + 1\<rparr> in
         case hashKey h t1 key of
           Inl e \<Rightarrow> Inl e
         | Inr b \<Rightarrow>
             (let t2 = t1\<lparr>buckets := (buckets t1)[b := (key, val) # buckets t1 ! b]\<rparr>;
                  t3 = (if b < firstBucketIt t2 then t2\<lparr>firstBucketIt := b\<rparr> else t2)
              in if dbl_gt (loadFactor t3) (maxLoadFactor t3) then
                   (case rehash' t3 (bucketSize t3 * 2) of
                      Inl e \<Rightarrow> Inl e
                    | Inr t4 \<Rightarrow> Inr (True, t4))
                 else Inr (True, t3)))
      else
        (case listItBefore it of (b, p) \<Rightarrow>
           if b < length (buckets t) \<and> p < length (buckets t ! b) then
             Inr (False,
                  t\<lparr>buckets := (buckets t)
                       [b := (buckets t ! b)[p := (fst (buckets t ! b ! p), val)]]\<rparr>)
           else Inl undefined_behaviour))"

definition insert_kv_with ::
    "(('k, 'v) HashTable \<Rightarrow> nat \<Rightarrow> error + ('k, 'v) HashTable)
       \<Rightarrow> ('k \<Rightarrow> nat) \<Rightarrow> ('k, 'v) HashTable \<Rightarrow> 'k \<Rightarrow> 'v
       \<Rightarrow> error + (bool \<times> ('k, 'v) HashTable)" where
  "insert_kv_with rehash' h t key val =
     (case find_key h t key of
        Inl e \<Rightarrow> Inl e
      | Inr (it, t1) \<Rightarrow> insert_it_with rehash' h t1 it key val)"

fun reinsert ::
    "(('k, 'v) HashTable \<Rightarrow> 'k \<Rightarrow> 'v \<Rightarrow> error + (bool \<times> ('k, 'v) HashTable))
       \<Rightarrow> ('k \<times> 'v) list \<Rightarrow> ('k, 'v) HashTable \<Rightarrow> error + ('k, 'v) HashTable" where
  "reinsert insert' [] t = Inr t"
| "reinsert insert' ((key, val) # vec) t =
     (case insert' t key val of
        Inl e \<Rightarrow> Inl e
      | Inr (b, t1) \<Rightarrow> reinsert insert' vec t1)"

primrec rehash ::
    "nat \<Rightarrow> ('k \<Rightarrow> nat) \<Rightarrow> nat list \<Rightarrow> ('k, 'v) HashTable \<Rightarrow> nat
       \<Rightarrow> error + ('k, 'v) HashTable" where
  "rehash 0 h sizes t bucketSize' = Inl out_of_fuel"
| "rehash (Suc fuel) h sizes t bucketSize' =
     (case findMinimumBucketSize sizes t bucketSize' of
        Inl e \<Rightarrow> Inl e
      | Inr n \<Rightarrow>
          if n = length (buckets t) then Inr t
          else
            (case drain t of
               Inl e \<Rightarrow> Inl e
             | Inr vec \<Rightarrow>
                 reinsert (insert_kv_with (rehash fuel h sizes) h) vec
                   (t\<lparr>tableSize := 0, buckets := replicate n [], firstBucketIt := n\<rparr>)))"

text \<open>\<^verbatim>\<open>insert(it, key, value)\<close> and \<^verbatim>\<open>insert(key, value)\<close> of the class.\<close>

definition insert_it ::
    "nat \<Rightarrow> ('k \<Rightarrow> nat) \<Rightarrow> nat list \<Rightarrow> ('k, 'v) HashTable \<Rightarrow> Iterator \<Rightarrow> 'k \<Rightarrow> 'v
       \<Rightarrow> error + (bool \<times> ('k, 'v) HashTable)" where
  "insert_it fuel h sizes = insert_it_with (rehash fuel h sizes) h"

definition insert_kv ::
    "nat \<Rightarrow> ('k \<Rightarrow> nat) \<Rightarrow> nat list \<Rightarrow> ('k, 'v) HashTable \<Rightarrow> 'k \<Rightarrow> 'v
       \<Rightarrow> error + (bool \<times> ('k, 'v) HashTable)" where
  "insert_kv fuel h sizes = insert_kv_with (rehash fuel h sizes) h"

subsection \<open>Erasure\<close>

text \<open>
  \<^verbatim>\<open>erase(it)\<close>: \<^verbatim>\<open>erase_after\<close> removes the element after \<^verbatim>\<open>listItBefore\<close> from the
  chain of \<^verbatim>\<open>bucketIt\<close>; the iterator handed in is returned.
\<close>

definition erase_it ::
    "('k, 'v) HashTable \<Rightarrow> Iterator \<Rightarrow> error + (Iterator \<times> ('k, 'v) HashTable)" where
  "erase_it t it =
     (if endFlag it then Inr (it, t)
      else
        (case listItBefore it of (b, p) \<Rightarrow>
           if bucketIt it < length (buckets t) \<and> b = bucketIt it
              \<and> p < length (buckets t ! b) then
             (let t1 = t\<lparr>buckets := (buckets t)
                          [b := take p (buckets t ! b) @ drop (Suc p) (buckets t ! b)]\<rparr>;
                  t2 = t1\<lparr>tableSize :=
                          (if tableSize t1 = 0 then 2 ^ 64 - 1 else tableSize t1 - 1)\<rparr>
              in if firstBucketIt t2 < bucketIt it then Inr (it, t2)
                 else Inr (it, t2\<lparr>firstBucketIt := scan (buckets t2) (bucketIt it)\<rparr>))
           else Inl undefined_behaviour))"

definition erase_key ::
    "('k \<Rightarrow> nat) \<Rightarrow> ('k, 'v) HashTable \<Rightarrow> 'k \<Rightarrow> error + (bool \<times> ('k, 'v) HashTable)" where
  "erase_key h t key =
     (case find_key h t key of
        Inl e \<Rightarrow> Inl e
      | Inr (it, t1) \<Rightarrow>
          if endFlag it then Inr (False, t1)
          else (case erase_it t1 it of
                  Inl e \<Rightarrow> Inl e
                | Inr (it', t2) \<Rightarrow> Inr (True, t2)))"

subsection \<open>Access by key, load factor\<close>

text \<open>
  \<^verbatim>\<open>operator[]\<close>; \<open>dflt\<close> is \<^verbatim>\<open>Value()\<close>. The reference returned is modelled by the
  value it refers to.
\<close>

definition access ::
    "nat \<Rightarrow> ('k \<Rightarrow> nat) \<Rightarrow> nat list \<Rightarrow> 'v \<Rightarrow> ('k, 'v) HashTable \<Rightarrow> 'k
       \<Rightarrow> error + ('v \<times> ('k, 'v) HashTable)" where
  "access fuel h sizes dflt t key =
     (case find_key h t key of
        Inl e \<Rightarrow> Inl e
      | Inr (it, t1) \<Rightarrow>
          if endFlag it then
            (case insert_kv fuel h sizes t1 key dflt of
               Inl e \<Rightarrow> Inl e
             | Inr (b, t2) \<Rightarrow>
                 (case find_key h t2 key of
                    Inl e \<Rightarrow> Inl e
                  | Inr (it', t3) \<Rightarrow>
                      (case deref t3 it' of
                         Inl e \<Rightarrow> Inl e
                       | Inr x \<Rightarrow> Inr (snd x, t3))))
          else
            (case deref t1 it of
               Inl e \<Rightarrow> Inl e
             | Inr x \<Rightarrow> Inr (snd x, t1)))"

definition size_of :: "('k, 'v) HashTable \<Rightarrow> nat" where
  "size_of t = tableSize t"

text \<open>The literal \<^verbatim>\<open>1e-9\<close>: the double nearest to \<open>10 ^ - 9\<close>.\<close>

definition double_1e_9 :: dbl where
  "double_1e_9 = round_dbl (1 / 10 ^ 9)"

definition setMaxLoadFactor ::
    "nat \<Rightarrow> ('k \<Rightarrow> nat) \<Rightarrow> nat list \<Rightarrow> ('k, 'v) HashTable \<Rightarrow> dbl
       \<Rightarrow> error + ('k, 'v) HashTable" where
  "setMaxLoadFactor fuel h sizes t loadFactor' =
     (if dbl_le loadFactor' double_1e_9 then Inl (range_error ''invalid load factor!'')
      else rehash fuel h sizes (t\<lparr>maxLoadFactor := loadFactor'\<rparr>) (length (buckets t)))"

subsection \<open>Traversal\<close>





section \<open>Invariants and reachable tables\<close>

text \<open>
  The first non-empty bucket of a vector of chains, the number of buckets when every
  chain is empty: what \<^verbatim>\<open>firstBucketIt\<close> is meant to cache.
\<close>

definition first_occupied :: "'a list list \<Rightarrow> nat" where
  "first_occupied bs = length (takeWhile (\<lambda>b. b = []) bs)"

definition entries :: "('k, 'v) HashTable \<Rightarrow> ('k \<times> 'v) list" where
  "entries t = concat (buckets t)"

definition cursor_ok :: "('k, 'v) HashTable \<Rightarrow> bool" where
  "cursor_ok t = (firstBucketIt t = first_occupied (buckets t))"

definition size_ok :: "('k, 'v) HashTable \<Rightarrow> bool" where
  "size_ok t = (tableSize t = length (entries t))"

text \<open>Every entry lies in the bucket of its hash value, and no chain holds a key twice.\<close>

definition placed :: "('k \<Rightarrow> nat) \<Rightarrow> ('k, 'v) HashTable \<Rightarrow> bool" where
  "placed h t =
     (\<forall>b < length (buckets t). \<forall>e \<in> set (buckets t ! b). h (fst e) mod length (buckets t) = b)"

definition keys_distinct :: "('k, 'v) HashTable \<Rightarrow> bool" where
  "keys_distinct t = (\<forall>b < length (buckets t). distinct (map fst (buckets t ! b)))"

definition struct_ok :: "('k \<Rightarrow> nat) \<Rightarrow> ('k, 'v) HashTable \<Rightarrow> bool" where
  "struct_ok h t = (cursor_ok t \<and> size_ok t \<and> placed h t \<and> keys_distinct t)"

text \<open>
  One completed mutating operation of the class takes the table \<open>t\<close> to \<open>t'\<close>. A locator
  given to \<^verbatim>\<open>insert(it, key, value)\<close> comes from \<^verbatim>\<open>find(key)\<close> on the same table, as the
  source requires; \<^verbatim>\<open>erase(it)\<close> takes any iterator it can erase through. For a copy,
  \<open>t\<close> is the table copied from.
\<close>

inductive mutation ::
    "('k \<Rightarrow> nat) \<Rightarrow> nat list \<Rightarrow> ('k, 'v) HashTable \<Rightarrow> ('k, 'v) HashTable \<Rightarrow> bool"
  for h :: "'k \<Rightarrow> nat" and sizes :: "nat list"
where
  by_insert_kv: "insert_kv fuel h sizes t key val = Inr (r, t') \<Longrightarrow> mutation h sizes t t'"
| by_insert_it: "find_key h t key = Inr (it, t1) \<Longrightarrow>
      insert_it fuel h sizes t1 it key val = Inr (r, t') \<Longrightarrow> mutation h sizes t t'"
| by_erase_key: "erase_key h t key = Inr (r, t') \<Longrightarrow> mutation h sizes t t'"
| by_erase_it: "erase_it t it = Inr (it', t') \<Longrightarrow> mutation h sizes t t'"
| by_access: "access fuel h sizes dflt t key = Inr (val, t') \<Longrightarrow> mutation h sizes t t'"
| by_rehash: "rehash fuel h sizes t n = Inr t' \<Longrightarrow> mutation h sizes t t'"
| by_setMaxLoadFactor: "setMaxLoadFactor fuel h sizes t f = Inr t' \<Longrightarrow> mutation h sizes t t'"
| by_copy: "mutation h sizes t (HashTable_copy t)"
| by_assign: "mutation h sizes t (assign this t)"

text \<open>The tables a program can hold: built by a constructor, then mutated.\<close>

inductive reachable :: "('k \<Rightarrow> nat) \<Rightarrow> nat list \<Rightarrow> ('k, 'v) HashTable \<Rightarrow> bool"
  for h :: "'k \<Rightarrow> nat" and sizes :: "nat list"
where
  default: "reachable h sizes (HashTable_default sizes)"
| sized: "HashTable_sized sizes n = Inr t \<Longrightarrow> reachable h sizes t"
| step: "reachable h sizes t \<Longrightarrow> mutation h sizes t t' \<Longrightarrow> reachable h sizes t'"

text \<open>
  Names for the tables the branches of the operations build: the locator of a found
  entry, the table after the new entry is put at the head of its chain, after a value
  is overwritten, and after an entry is erased.
\<close>

definition found_at :: "nat \<Rightarrow> nat \<Rightarrow> Iterator" where
  "found_at b p = \<lparr>bucketIt = b, listItBefore = (b, p), endFlag = False\<rparr>"

definition emplaced :: "('k \<Rightarrow> nat) \<Rightarrow> ('k, 'v) HashTable \<Rightarrow> 'k \<Rightarrow> 'v \<Rightarrow> ('k, 'v) HashTable" where
  "emplaced h t key val =
     (let t1 = t\<lparr>tableSize := tableSize t + 1\<rparr>;
          b = h key mod length (buckets t1);
          t2 = t1\<lparr>buckets := (buckets t1)[b := (key, val) # buckets t1 ! b]\<rparr>
      in if b < firstBucketIt t2 then t2\<lparr>firstBucketIt := b\<rparr> else t2)"

definition overwritten :: "('k, 'v) HashTable \<Rightarrow> nat \<Rightarrow> nat \<Rightarrow> 'v \<Rightarrow> ('k, 'v) HashTable" where
  "overwritten t b p val =
     t\<lparr>buckets := (buckets t)[b := (buckets t ! b)[p := (fst (buckets t ! b ! p), val)]]\<rparr>"

definition erased :: "('k, 'v) HashTable \<Rightarrow> nat \<Rightarrow> nat \<Rightarrow> ('k, 'v) HashTable" where
  "erased t b p =
     (let t1 = t\<lparr>buckets := (buckets t)
                  [b := take p (buckets t ! b) @ drop (Suc p) (buckets t ! b)]\<rparr>;
          t2 = t1\<lparr>tableSize := (if tableSize t1 = 0 then 2 ^ 64 - 1 else tableSize t1 - 1)\<rparr>
      in if firstBucketIt t2 < b then t2
         else t2\<lparr>firstBucketIt := scan (buckets t2) b\<rparr>)"

text \<open>
  What the proofs by induction on the nesting bound assume of the rehash an insertion
  calls: it keeps the structure, the entries and the maximum load factor; and, for the
  errors, it never raises the error \<open>e0\<close>.
\<close>

definition rehash_sound ::
    "('k \<Rightarrow> nat) \<Rightarrow> (('k, 'v) HashTable \<Rightarrow> nat \<Rightarrow> error + ('k, 'v) HashTable) \<Rightarrow> bool" where
  "rehash_sound h rh =
     (\<forall>t n t'. struct_ok h t \<longrightarrow> rh t n = Inr t' \<longrightarrow>
        struct_ok h t' \<and> mset (entries t') = mset (entries t)
        \<and> maxLoadFactor t' = maxLoadFactor t)"

definition plain_rehash ::
    "error \<Rightarrow> (('k, 'v) HashTable \<Rightarrow> nat \<Rightarrow> error + ('k, 'v) HashTable) \<Rightarrow> bool" where
  "plain_rehash e0 rh =
     (\<forall>t n. rh t n \<noteq> Inl e0
        \<and> (\<forall>t'. rh t n = Inr t' \<longrightarrow> maxLoadFactor t' = maxLoadFactor t))"

definition plain_insert ::
    "error \<Rightarrow> (('k, 'v) HashTable \<Rightarrow> 'k \<Rightarrow> 'v \<Rightarrow> error + (bool \<times> ('k, 'v) HashTable)) \<Rightarrow> bool" where
  "plain_insert e0 ins =
     (\<forall>t k v. ins t k v \<noteq> Inl e0
        \<and> (\<forall>r t'. ins t k v = Inr (r, t') \<longrightarrow> maxLoadFactor t' = maxLoadFactor t))"

section \<open>Verification\<close>

subsection \<open>Doubles\<close>

text \<open>The binade is the one of its description.\<close>

lemma binade_bounds:
  assumes "0 < x"
  shows "2 powi binade x \<le> x" and "x < 2 powi (binade x + 1)"
proof -
  have "2 powi binade x \<le> x \<and> x < 2 powi (binade x + 1)"
  proof (cases "1 \<le> x")
    case True
    define n where "n = \<lfloor>x\<rfloor>"
    from True have n: "0 < n" by (simp add: n_def)
    then have b1: "1 \<le> bitlen n" by (simp add: bitlen_ge_iff_power)
    from bitlen_bounds [OF n]
    have lo: "2 ^ nat (bitlen n - 1) \<le> n" and hi: "n < 2 ^ nat (bitlen n)"
      by simp_all
    have bd: "binade x = bitlen n - 1" using True by (simp add: binade_def n_def)
    have e1: "(2::rat) powi (bitlen n - 1) = of_int (2 ^ nat (bitlen n - 1))"
      using b1 by (simp add: power_int_def)
    have e2: "(2::rat) powi (bitlen n - 1 + 1) = of_int (2 ^ nat (bitlen n))"
      using b1 by (simp add: power_int_def)
    have x1: "(of_int n :: rat) \<le> x" by (simp add: n_def)
    have x2: "x < of_int (n + 1)" unfolding n_def by linarith
    from lo have l1: "(of_int (2 ^ nat (bitlen n - 1)) :: rat) \<le> of_int n"
      by (simp only: of_int_le_iff)
    from hi have "n + 1 \<le> 2 ^ nat (bitlen n)" by simp
    then have l2: "(of_int (n + 1) :: rat) \<le> of_int (2 ^ nat (bitlen n))"
      by (simp only: of_int_le_iff)
    from x1 x2 l1 l2 show ?thesis unfolding bd e1 e2 by linarith
  next
    case False
    define c where "c = \<lceil>1 / x\<rceil> - 1"
    from False assms have "1 < 1 / x" by simp
    then have "1 < \<lceil>1 / x\<rceil>" by (simp add: less_ceiling_iff)
    then have c: "0 < c" by (simp add: c_def)
    then have b1: "1 \<le> bitlen c" by (simp add: bitlen_ge_iff_power)
    from bitlen_bounds [OF c]
    have lo: "2 ^ nat (bitlen c - 1) \<le> c" and hi: "c < 2 ^ nat (bitlen c)"
      by simp_all
    have bd: "binade x = - bitlen c" using False by (simp add: binade_def c_def)
    have e1: "(2::rat) powi (- bitlen c) = 1 / of_int (2 ^ nat (bitlen c))"
      using b1 by (simp add: power_int_def field_simps)
    have "- bitlen c + 1 = - (bitlen c - 1)" by simp
    then have e2: "(2::rat) powi (- bitlen c + 1) = 1 / of_int (2 ^ nat (bitlen c - 1))"
      using b1 by (simp only: power_int_minus) (simp add: power_int_def field_simps)
    have x1: "of_int c < 1 / x" unfolding c_def by linarith
    from lo have l1: "(of_int (2 ^ nat (bitlen c - 1)) :: rat) \<le> of_int c"
      by (simp only: of_int_le_iff)
    from l1 x1 have "(of_int (2 ^ nat (bitlen c - 1)) :: rat) < 1 / x" by linarith
    then have up: "x < 1 / of_int (2 ^ nat (bitlen c - 1))"
      using assms by (simp add: field_simps)
    have x2: "1 / x \<le> of_int (c + 1)" unfolding c_def by simp
    from hi have "c + 1 \<le> 2 ^ nat (bitlen c)" by simp
    then have l2: "(of_int (c + 1) :: rat) \<le> of_int (2 ^ nat (bitlen c))"
      by (simp only: of_int_le_iff)
    from x2 l2 have "1 / x \<le> of_int (2 ^ nat (bitlen c))" by linarith
    then have lw: "1 / of_int (2 ^ nat (bitlen c)) \<le> x"
      using assms by (simp add: field_simps)
    from up lw show ?thesis unfolding bd e1 e2 by simp
  qed
  then show "2 powi binade x \<le> x" and "x < 2 powi (binade x + 1)" by simp_all
qed

text \<open>Rounding to an integer moves by at most one half and keeps an integer.\<close>

lemma round_even_near: "\<bar>of_int (round_even y) - y\<bar> \<le> 1 / 2"
proof -
  have "of_int \<lfloor>y\<rfloor> \<le> y" and "y < of_int \<lfloor>y\<rfloor> + 1" by linarith+
  then show ?thesis by (simp add: round_even_def Let_def)
qed

lemma round_even_of_int [simp]: "round_even (of_int m) = m"
  by (simp add: round_even_def)

text \<open>A finite result of rounding lies within half a unit in the last place.\<close>

lemma round_pos_near:
  assumes "round_pos x = Finite r"
  shows "\<bar>r - x\<bar> \<le> 2 powi (max (binade x - 52) (- 1074)) / 2"
proof -
  define p :: rat where "p = 2 powi (max (binade x - 52) (- 1074))"
  have p: "0 < p" by (simp add: p_def)
  from assms have r: "r = of_int (round_even (x / p)) * p"
    by (auto simp: round_pos_def Let_def p_def split: if_splits)
  have le: "\<bar>of_int (round_even (x / p)) - x / p\<bar> * p \<le> 1 / 2 * p"
    using round_even_near [of "x / p"] p by (intro mult_right_mono) simp_all
  have eq: "\<bar>of_int (round_even (x / p)) - x / p\<bar> * p = \<bar>r - x\<bar>"
  proof -
    have "\<bar>of_int (round_even (x / p)) - x / p\<bar> * p
        = \<bar>(of_int (round_even (x / p)) - x / p) * p\<bar>"
      using p by (simp add: abs_mult)
    also have "(of_int (round_even (x / p)) - x / p) * p = r - x"
      using p by (simp add: r algebra_simps)
    finally show ?thesis .
  qed
  from le have "\<bar>r - x\<bar> \<le> p / 2" unfolding eq by simp
  then show ?thesis by (simp only: p_def)
qed

text \<open>A size below \<open>2 ^ 53\<close> is converted without rounding.\<close>

lemma round_dbl_of_nat:
  assumes "n < 2 ^ 53"
  shows "round_dbl (of_nat n) = Finite (of_nat n)"
proof (cases "n = 0")
  case True
  then show ?thesis by (simp add: round_dbl_def)
next
  case False
  then have n: "0 < n" by simp
  define e where "e = bitlen (int n) - 1"
  from n have "1 \<le> bitlen (int n)" by (simp add: bitlen_ge_iff_power)
  then have e0: "0 \<le> e" by (simp add: e_def)
  from assms have "bitlen (int n) \<le> 53"
    using less_power_nat_iff_bitlen [of n 53] by simp
  then have e52: "e \<le> 52" by (simp add: e_def)
  have b: "binade (of_nat n) = e" using n by (simp add: binade_def e_def)
  have q: "max (e - 52) (- 1074) = e - 52" using e0 by simp
  have p: "(2::rat) powi (e - 52) = 1 / 2 ^ nat (52 - e)"
    using e52 by (simp add: power_int_def field_simps)
  have "of_nat n / (2::rat) powi (e - 52) = of_int (int n * 2 ^ nat (52 - e))"
    by (simp add: p)
  then have r: "round_even (of_nat n / 2 powi (e - 52)) = int n * 2 ^ nat (52 - e)"
    by (simp only: round_even_of_int)
  have rb: "of_int (int n * 2 ^ nat (52 - e)) * (2::rat) powi (e - 52) = of_nat n"
    by (simp add: p)
  from n e52 show ?thesis
    by (simp add: round_dbl_def round_pos_def Let_def b q r rb del: of_int_mult)
qed

lemma of_size_exact: "n < 2 ^ 53 \<Longrightarrow> of_size n = Finite (of_nat n)"
  by (simp add: of_size_def round_dbl_of_nat)

lemma round_dbl_0 [simp]: "round_dbl 0 = Finite 0"
  by (simp add: round_dbl_def)

lemma of_size_0 [simp]: "of_size 0 = Finite 0"
  by (simp add: of_size_def)

lemma round_dbl_numeral:
  "numeral k < (2::nat) ^ 53 \<Longrightarrow> round_dbl (numeral k) = Finite (numeral k)"
  using round_dbl_of_nat [of "numeral k"] by simp

lemma round_dbl_1 [simp]: "round_dbl 1 = Finite 1"
  using round_dbl_of_nat [of 1] by simp

text \<open>The values of the doubles that the examples use.\<close>

lemma double_1e_9_value: "double_1e_9 = Finite (4835703278458517 / 2 ^ 82)"
  by code_simp

lemma dbl_le_double_1e_9:
  "dbl_le f double_1e_9
     = (case f of Finite x \<Rightarrow> x \<le> 4835703278458517 / 2 ^ 82 | PInf \<Rightarrow> False
        | NInf \<Rightarrow> True | NaN \<Rightarrow> False)"
  by (cases f) (simp_all add: double_1e_9_value)

subsection \<open>Unfolding the operations\<close>

lemmas table_defs =
  findMinimumBucketSize_def HashTable_default_def DEFAULT_BUCKET_SIZE_def
  DEFAULT_LOAD_FACTOR_def dbl_ge_def dbl_gt_def size_less_def
  HashTable_sized_def find_key_def hashKey_def
  Iterator_at_def end_it_def erase_it_def it_eq_def it_neq_def deref_def contains_def
  setMaxLoadFactor_def

subsection \<open>The first occupied bucket\<close>

lemma first_occupied_le: "first_occupied bs \<le> length bs"
  by (simp add: first_occupied_def length_takeWhile_le)

lemma first_occupied_before: "i < first_occupied bs \<Longrightarrow> bs ! i = []"
proof -
  assume "i < first_occupied bs"
  then have lt: "i < length (takeWhile (\<lambda>b. b = []) bs)"
    by (simp add: first_occupied_def)
  then have "takeWhile (\<lambda>b. b = []) bs ! i \<in> set (takeWhile (\<lambda>b. b = []) bs)"
    by (rule nth_mem)
  then have "takeWhile (\<lambda>b. b = []) bs ! i = []"
    by (rule set_takeWhileD [THEN conjunct2])
  with lt show ?thesis
    by (simp add: takeWhile_nth)
qed

lemma first_occupied_at: "first_occupied bs < length bs \<Longrightarrow> bs ! first_occupied bs \<noteq> []"
  unfolding first_occupied_def by (rule nth_length_takeWhile)

lemma first_occupiedI:
  assumes "i \<le> length bs" and "\<And>j. j < i \<Longrightarrow> bs ! j = []" and "i < length bs \<Longrightarrow> bs ! i \<noteq> []"
  shows "first_occupied bs = i"
proof (rule antisym)
  show "first_occupied bs \<le> i"
  proof (rule ccontr)
    assume "\<not> first_occupied bs \<le> i"
    then have lt: "i < first_occupied bs" by simp
    with first_occupied_le [of bs] have "i < length bs" by simp
    with assms(3) first_occupied_before [OF lt] show False by simp
  qed
  show "i \<le> first_occupied bs"
  proof (rule ccontr)
    assume "\<not> i \<le> first_occupied bs"
    then have lt: "first_occupied bs < i" by simp
    with assms(1) have "first_occupied bs < length bs" by simp
    with first_occupied_at [of bs] assms(2) [OF lt] show False by simp
  qed
qed

lemma first_occupied_end_iff: "first_occupied bs = length bs \<longleftrightarrow> concat bs = []"
proof
  assume eq: "first_occupied bs = length bs"
  have "\<forall>b \<in> set bs. b = []"
  proof
    fix b assume "b \<in> set bs"
    then obtain i where "i < length bs" "bs ! i = b" by (auto simp: in_set_conv_nth)
    with eq first_occupied_before [of i bs] show "b = []" by simp
  qed
  then show "concat bs = []" by simp
next
  assume "concat bs = []"
  then have all: "\<forall>b \<in> set bs. b = []" by simp
  show "first_occupied bs = length bs"
    by (rule first_occupiedI) (use all in auto)
qed

lemma scan_props:
  "i \<le> length bs \<Longrightarrow>
     i \<le> scan bs i \<and> scan bs i \<le> length bs
     \<and> (\<forall>j. i \<le> j \<and> j < scan bs i \<longrightarrow> bs ! j = [])
     \<and> (scan bs i < length bs \<longrightarrow> bs ! scan bs i \<noteq> [])"
proof (induction bs i rule: scan.induct)
  case (1 bs i)
  show ?case
  proof (cases "i \<ge> length bs")
    case True
    from True "1.prems" have "i = length bs" by simp
    moreover from True have "scan bs i = length bs"
      by (subst scan.simps) simp
    ultimately have "scan bs i = length bs" "i = length bs" by simp_all
    then show ?thesis by auto
  next
    case False
    show ?thesis
    proof (cases "bs ! i \<noteq> []")
      case True
      with False have "scan bs i = i" by (subst scan.simps) simp
      with True False show ?thesis by auto
    next
      case empty: False
      with False "1.IH" have IH: "Suc i \<le> scan bs (Suc i) \<and> scan bs (Suc i) \<le> length bs
         \<and> (\<forall>j. Suc i \<le> j \<and> j < scan bs (Suc i) \<longrightarrow> bs ! j = [])
         \<and> (scan bs (Suc i) < length bs \<longrightarrow> bs ! scan bs (Suc i) \<noteq> [])" by simp
      have eq: "scan bs i = scan bs (Suc i)"
        using False empty by (subst scan.simps) simp
      have "\<And>j. i \<le> j \<Longrightarrow> j < scan bs (Suc i) \<Longrightarrow> bs ! j = []"
      proof -
        fix j assume "i \<le> j" "j < scan bs (Suc i)"
        then show "bs ! j = []" using IH empty by (cases "j = i") auto
      qed
      with IH show ?thesis unfolding eq by auto
    qed
  qed
qed

lemma scan_from: "i \<le> first_occupied bs \<Longrightarrow> scan bs i = first_occupied bs"
proof -
  assume le: "i \<le> first_occupied bs"
  with first_occupied_le [of bs] have il: "i \<le> length bs" by simp
  note sp = scan_props [OF il]
  have "first_occupied bs = scan bs i"
  proof (rule first_occupiedI)
    show "scan bs i \<le> length bs" using sp by simp
    show "bs ! j = []" if "j < scan bs i" for j
      using that sp first_occupied_before [of j bs] le by (cases "j < i") auto
    show "bs ! scan bs i \<noteq> []" if "scan bs i < length bs"
      using that sp by simp
  qed
  then show ?thesis by simp
qed

lemma concat_drop_empty:
  "i \<le> j \<Longrightarrow> j \<le> length bs \<Longrightarrow> (\<And>l. i \<le> l \<Longrightarrow> l < j \<Longrightarrow> bs ! l = []) \<Longrightarrow>
     concat (drop i bs) = concat (drop j bs)"
proof (induction "j - i" arbitrary: i)
  case 0
  then show ?case by simp
next
  case (Suc n)
  then have lt: "i < j" and il: "i < length bs" by auto
  have "bs ! i = []" using Suc.prems(3) [of i] lt by simp
  then have "concat (drop i bs) = concat (drop (Suc i) bs)"
    using il by (simp add: Cons_nth_drop_Suc [symmetric])
  also have "\<dots> = concat (drop j bs)"
  proof (rule Suc.hyps(1))
    show "n = j - Suc i" using Suc.hyps(2) by simp
    show "Suc i \<le> j" using lt by simp
    show "j \<le> length bs" by (rule Suc.prems(2))
    show "bs ! l = []" if "Suc i \<le> l" "l < j" for l
      using that Suc.prems(3) [of l] by simp
  qed
  finally show ?case .
qed

lemma concat_drop_scan: "i \<le> length bs \<Longrightarrow> concat (drop (scan bs i) bs) = concat (drop i bs)"
  using scan_props [of i bs] concat_drop_empty [of i "scan bs i" bs] by simp

lemma concat_drop_first_occupied: "concat (drop (first_occupied bs) bs) = concat bs"
  using concat_drop_empty [of 0 "first_occupied bs" bs] first_occupied_le [of bs]
    first_occupied_before [of _ bs] by simp

subsection \<open>Traversal\<close>

text \<open>
  The loop of \<^verbatim>\<open>rehash\<close> that collects the entries, started at a valid position,
  returns the rest of the chain and the chains behind it; started at \<^verbatim>\<open>begin()\<close> of a
  table whose cursor is right, it returns every entry. The loop of a caller up to
  \<^verbatim>\<open>end()\<close> does the same.
\<close>

lemma deref_at:
  "listItBefore it = (b, p) \<Longrightarrow> b < length (buckets t) \<Longrightarrow> p < length (buckets t ! b) \<Longrightarrow>
     deref t it = Inr (buckets t ! b ! p)"
  by (simp add: deref_def)

lemma increment_in_chain:
  assumes "bucketIt it < length (buckets t)" and "listItBefore it = (b, p)"
    and "Suc p < length (buckets t ! bucketIt it)"
  shows "increment t it = Inr (it\<lparr>listItBefore := (b, Suc p)\<rparr>)"
  using assms by (simp add: increment_def)

lemma increment_next_bucket:
  assumes "bucketIt it < length (buckets t)" and "listItBefore it = (b, p)"
    and "Suc p = length (buckets t ! bucketIt it)"
  shows "increment t it =
     (let j = scan (buckets t) (Suc (bucketIt it)) in
      if j \<noteq> length (buckets t)
      then Inr (it\<lparr>bucketIt := j, listItBefore := (j, 0)\<rparr>)
      else Inr (it\<lparr>bucketIt := j, endFlag := True\<rparr>))"
  using assms by (simp add: increment_def)

lemma drain_loop_end: "endFlag it \<Longrightarrow> drain_loop t it = Inr []"
  by (simp add: drain_loop.simps)

lemma drain_loop_at:
  assumes "\<not> endFlag it" and "bucketIt it < length (buckets t)"
    and "fst (listItBefore it) = bucketIt it"
    and "snd (listItBefore it) < length (buckets t ! bucketIt it)"
  shows "drain_loop t it =
     Inr (drop (snd (listItBefore it)) (buckets t ! bucketIt it)
          @ concat (drop (Suc (bucketIt it)) (buckets t)))"
  using assms
proof (induction t it rule: drain_loop.induct)
  case (1 t it)
  define b where "b = bucketIt it"
  define p where "p = snd (listItBefore it)"
  define chain where "chain = buckets t ! b"
  have lb: "listItBefore it = (b, p)"
    using "1.prems"(3) by (simp add: b_def p_def prod_eq_iff)
  have bn: "b < length (buckets t)" and pl: "p < length chain"
    using "1.prems" by (simp_all add: b_def p_def chain_def)
  have de: "deref t it = Inr (chain ! p)"
    using lb bn pl by (simp add: deref_at chain_def)
  have unfold: "drain_loop t it =
     (case increment t it of Inl e \<Rightarrow> Inl e
      | Inr it' \<Rightarrow> (case drain_loop t it' of Inl e \<Rightarrow> Inl e | Inr xs \<Rightarrow> Inr (chain ! p # xs)))"
    using "1.prems"(1) de by (subst drain_loop.simps) simp
  show ?case
  proof (cases "Suc p < length chain")
    case True
    define it' where "it' = it\<lparr>listItBefore := (b, Suc p)\<rparr>"
    have inc: "increment t it = Inr it'"
      using increment_in_chain [of it t b p] bn lb True by (simp add: b_def chain_def it'_def)
    have "drain_loop t it' =
       Inr (drop (snd (listItBefore it')) (buckets t ! bucketIt it')
            @ concat (drop (Suc (bucketIt it')) (buckets t)))"
      using "1.prems"(1) de inc
    proof (rule "1.IH")
      show "\<not> endFlag it'" using "1.prems"(1) by (simp add: it'_def)
      show "bucketIt it' < length (buckets t)" using bn by (simp add: it'_def b_def)
      show "fst (listItBefore it') = bucketIt it'" by (simp add: it'_def b_def)
      show "snd (listItBefore it') < length (buckets t ! bucketIt it')"
        using True by (simp add: it'_def b_def chain_def)
    qed
    then have "drain_loop t it' = Inr (drop (Suc p) chain @ concat (drop (Suc b) (buckets t)))"
      by (simp add: it'_def b_def chain_def)
    with unfold inc have "drain_loop t it =
        Inr (chain ! p # drop (Suc p) chain @ concat (drop (Suc b) (buckets t)))" by simp
    then show ?thesis
      using pl by (simp add: Cons_nth_drop_Suc b_def [symmetric] p_def [symmetric] chain_def [symmetric])
  next
    case False
    with pl have last: "Suc p = length chain" by simp
    then have dropp: "drop p chain = [chain ! p]"
      using pl by (metis Cons_nth_drop_Suc drop_all order_refl)
    define j where "j = scan (buckets t) (Suc b)"
    have sp: "Suc b \<le> j \<and> j \<le> length (buckets t)
        \<and> (j < length (buckets t) \<longrightarrow> buckets t ! j \<noteq> [])"
      using scan_props [of "Suc b" "buckets t"] bn by (simp add: j_def)
    have cd: "concat (drop j (buckets t)) = concat (drop (Suc b) (buckets t))"
      using concat_drop_scan [of "Suc b" "buckets t"] bn by (simp add: j_def)
    show ?thesis
    proof (cases "j = length (buckets t)")
      case True
      define it' where "it' = it\<lparr>bucketIt := j, endFlag := True\<rparr>"
      have inc: "increment t it = Inr it'"
        using increment_next_bucket [of it t b p] bn lb last True
        by (simp add: b_def chain_def it'_def j_def Let_def)
      have "drain_loop t it' = Inr []"
        by (rule drain_loop_end) (simp add: it'_def)
      with unfold inc have "drain_loop t it = Inr [chain ! p]" by simp
      moreover have "concat (drop (Suc b) (buckets t)) = []"
        using cd True by simp
      ultimately show ?thesis
        using dropp by (simp add: b_def [symmetric] p_def [symmetric] chain_def [symmetric])
    next
      case False
      with sp have jl: "j < length (buckets t)" and ne: "buckets t ! j \<noteq> []" by auto
      define it' where "it' = it\<lparr>bucketIt := j, listItBefore := (j, 0)\<rparr>"
      have inc: "increment t it = Inr it'"
        using increment_next_bucket [of it t b p] bn lb last False
        by (simp add: b_def chain_def it'_def j_def Let_def)
      have "drain_loop t it' =
         Inr (drop (snd (listItBefore it')) (buckets t ! bucketIt it')
              @ concat (drop (Suc (bucketIt it')) (buckets t)))"
        using "1.prems"(1) de inc
      proof (rule "1.IH")
        show "\<not> endFlag it'" using "1.prems"(1) by (simp add: it'_def)
        show "bucketIt it' < length (buckets t)" using jl by (simp add: it'_def)
        show "fst (listItBefore it') = bucketIt it'" by (simp add: it'_def)
        show "snd (listItBefore it') < length (buckets t ! bucketIt it')"
          using ne by (simp add: it'_def)
      qed
      then have "drain_loop t it' = Inr (buckets t ! j @ concat (drop (Suc j) (buckets t)))"
        by (simp add: it'_def)
      also have "buckets t ! j @ concat (drop (Suc j) (buckets t)) = concat (drop j (buckets t))"
        using jl by (simp add: Cons_nth_drop_Suc [symmetric])
      finally have "drain_loop t it' = Inr (concat (drop (Suc b) (buckets t)))"
        using cd by simp
      with unfold inc have "drain_loop t it = Inr (chain ! p # concat (drop (Suc b) (buckets t)))"
        by simp
      then show ?thesis
        using dropp by (simp add: b_def [symmetric] p_def [symmetric] chain_def [symmetric])
    qed
  qed
qed

lemma drain_entries:
  assumes "cursor_ok t"
  shows "drain t = Inr (entries t)"
proof (cases "firstBucketIt t = length (buckets t)")
  case True
  then have "concat (buckets t) = []"
    using assms first_occupied_end_iff [of "buckets t"] by (simp add: cursor_ok_def)
  moreover have "drain t = Inr []"
    using True by (simp add: drain_def begin_it_def end_it_def Iterator_at_def drain_loop_end)
  ultimately show ?thesis by (simp add: entries_def)
next
  case False
  define f where "f = firstBucketIt t"
  have fo: "f = first_occupied (buckets t)"
    using assms by (simp add: cursor_ok_def f_def)
  with False first_occupied_le [of "buckets t"] have fl: "f < length (buckets t)"
    by (simp add: f_def)
  then have ne: "buckets t ! f \<noteq> []"
    using first_occupied_at [of "buckets t"] fo by simp
  define it where "it = Iterator_at t f (f, 0)"
  have "drain t = drain_loop t it"
    using False fl by (simp add: drain_def begin_it_def it_def f_def)
  also have "\<dots> = Inr (drop (snd (listItBefore it)) (buckets t ! bucketIt it)
          @ concat (drop (Suc (bucketIt it)) (buckets t)))"
    by (rule drain_loop_at) (use fl ne in \<open>simp_all add: it_def Iterator_at_def\<close>)
  also have "\<dots> = Inr (buckets t ! f @ concat (drop (Suc f) (buckets t)))"
    by (simp add: it_def Iterator_at_def)
  also have "buckets t ! f @ concat (drop (Suc f) (buckets t)) = concat (drop f (buckets t))"
    using fl by (simp add: Cons_nth_drop_Suc [symmetric])
  also have "\<dots> = concat (buckets t)"
    using concat_drop_first_occupied [of "buckets t"] fo by simp
  finally show ?thesis by (simp add: entries_def)
qed




subsection \<open>Lookup\<close>

lemma find_loop_None: "find_loop k xs p0 = None \<longleftrightarrow> k \<notin> fst ` set xs"
  by (induction xs arbitrary: p0) auto

lemma find_loop_Some:
  "find_loop k xs p0 = Some p \<Longrightarrow> p0 \<le> p \<and> p - p0 < length xs \<and> fst (xs ! (p - p0)) = k"
proof (induction xs arbitrary: p0)
  case Nil
  then show ?case by simp
next
  case (Cons e es)
  show ?case
  proof (cases "fst e = k")
    case True
    with Cons.prems show ?thesis by simp
  next
    case False
    with Cons.prems have "find_loop k es (Suc p0) = Some p" by simp
    then have IH: "Suc p0 \<le> p \<and> p - Suc p0 < length es \<and> fst (es ! (p - Suc p0)) = k"
      by (rule Cons.IH)
    then have "p - p0 = Suc (p - Suc p0)" and "p0 \<le> p" by arith+
    with IH show ?thesis by simp
  qed
qed

lemma find_key_no_buckets: "buckets t = [] \<Longrightarrow> find_key h t k = Inl undefined_behaviour"
  by (simp add: find_key_def hashKey_def)

lemma find_key_absent:
  assumes "buckets t \<noteq> []" and "k \<notin> fst ` set (buckets t ! (h k mod length (buckets t)))"
  shows "find_key h t k = Inr (end_it t, t)"
  using assms find_loop_None [of k "buckets t ! (h k mod length (buckets t))" 0]
  by (simp add: find_key_def hashKey_def end_it_def)

lemma find_key_present:
  assumes "buckets t \<noteq> []" and "k \<in> fst ` set (buckets t ! (h k mod length (buckets t)))"
  shows "\<exists>p < length (buckets t ! (h k mod length (buckets t))).
           fst (buckets t ! (h k mod length (buckets t)) ! p) = k
           \<and> find_key h t k = Inr (found_at (h k mod length (buckets t)) p, t)"
proof -
  define b where "b = h k mod length (buckets t)"
  have bl: "b < length (buckets t)" using assms(1) by (simp add: b_def)
  from assms(2) have "find_loop k (buckets t ! b) 0 \<noteq> None"
    by (simp add: find_loop_None b_def)
  then obtain p where fl: "find_loop k (buckets t ! b) 0 = Some p" by auto
  from find_loop_Some [OF fl] have p: "p < length (buckets t ! b)" "fst (buckets t ! b ! p) = k"
    by simp_all
  have ne: "b \<noteq> length (buckets t)" using bl by simp
  have "find_key h t k = Inr (found_at b p, t)"
    using assms(1) fl [unfolded b_def] ne [unfolded b_def]
    by (simp add: find_key_def hashKey_def b_def found_at_def Iterator_at_def)
  with p show ?thesis unfolding b_def by blast
qed

lemma end_it_endFlag: "endFlag (end_it t)"
  by (simp add: end_it_def Iterator_at_def)

subsection \<open>Chains and vectors of chains\<close>

lemma concat_split: "b < length bs \<Longrightarrow>
    concat bs = concat (take b bs) @ bs ! b @ concat (drop (Suc b) bs)"
  by (metis append_Cons append_Nil concat.simps(2) concat_append id_take_nth_drop)

lemma concat_update: "b < length bs \<Longrightarrow>
    concat (bs[b := c]) = concat (take b bs) @ c @ concat (drop (Suc b) bs)"
  by (simp add: upd_conv_take_nth_drop)

lemma mset_concat_split: "b < length bs \<Longrightarrow>
    mset (concat bs) = mset (concat (take b bs)) + mset (bs ! b) + mset (concat (drop (Suc b) bs))"
  using concat_split [of b bs] by (metis mset_append append_assoc)

lemma mset_concat_update: "b < length bs \<Longrightarrow>
    mset (concat (bs[b := c])) = mset (concat (take b bs)) + mset c + mset (concat (drop (Suc b) bs))"
  by (simp add: concat_update)

lemma mset_concat_cons: "b < length bs \<Longrightarrow>
    mset (concat (bs[b := x # bs ! b])) = add_mset x (mset (concat bs))"
  by (simp add: mset_concat_update mset_concat_split [of b bs])

lemma length_concat_split: "b < length bs \<Longrightarrow>
    length (concat bs) = length (concat (take b bs)) + length (bs ! b) + length (concat (drop (Suc b) bs))"
  using concat_split [of b bs] by (metis length_append append_assoc)

lemma length_concat_remove: "b < length bs \<Longrightarrow> p < length (bs ! b) \<Longrightarrow>
    Suc (length (concat (bs[b := take p (bs ! b) @ drop (Suc p) (bs ! b)]))) = length (concat bs)"
  by (simp add: concat_update length_concat_split [of b bs])

lemma mset_concat_remove: "b < length bs \<Longrightarrow> p < length (bs ! b) \<Longrightarrow>
    add_mset (bs ! b ! p) (mset (concat (bs[b := take p (bs ! b) @ drop (Suc p) (bs ! b)])))
      = mset (concat bs)"
proof -
  assume b: "b < length bs" and p: "p < length (bs ! b)"
  have "bs ! b = take p (bs ! b) @ bs ! b ! p # drop (Suc p) (bs ! b)"
    using p by (rule id_take_nth_drop)
  then have "mset (bs ! b) = add_mset (bs ! b ! p) (mset (take p (bs ! b)) + mset (drop (Suc p) (bs ! b)))"
    by (metis mset.simps(2) mset_append union_mset_add_mset_right)
  then show ?thesis
    using b by (simp add: mset_concat_update mset_concat_split [of b bs])
qed

lemma map_fst_concat_update:
  assumes "b < length bs" and "map fst c = map fst (bs ! b)"
  shows "map fst (concat (bs[b := c])) = map fst (concat bs)"
proof -
  have "map fst (concat bs) =
      map fst (concat (take b bs)) @ map fst (bs ! b) @ map fst (concat (drop (Suc b) bs))"
    using concat_split [OF assms(1)] by (metis map_append)
  with assms show ?thesis by (simp add: concat_update)
qed

lemma first_occupied_cons: "b < length bs \<Longrightarrow>
    first_occupied (bs[b := x # bs ! b]) = min b (first_occupied bs)"
proof (rule first_occupiedI)
  assume b: "b < length bs"
  show "min b (first_occupied bs) \<le> length (bs[b := x # bs ! b])"
    using b by simp
  show "bs[b := x # bs ! b] ! j = []" if "j < min b (first_occupied bs)" for j
    using that b first_occupied_before [of j bs] by simp
  show "bs[b := x # bs ! b] ! min b (first_occupied bs) \<noteq> []"
  proof (cases "b \<le> first_occupied bs")
    case True
    with b show ?thesis by (simp add: min_def)
  next
    case False
    then have "first_occupied bs < length bs" using b by simp
    then have "bs ! first_occupied bs \<noteq> []" by (rule first_occupied_at)
    with False b show ?thesis by (simp add: min_def)
  qed
qed

lemma first_occupied_cong:
  assumes "length bs' = length bs" and "\<And>i. i < length bs \<Longrightarrow> (bs' ! i = []) = (bs ! i = [])"
  shows "first_occupied bs' = first_occupied bs"
proof (rule first_occupiedI)
  show "first_occupied bs \<le> length bs'"
    using assms(1) first_occupied_le [of bs] by simp
  show "bs' ! j = []" if "j < first_occupied bs" for j
  proof -
    from that first_occupied_le [of bs] have "j < length bs" by simp
    with assms(2) first_occupied_before [OF that] show ?thesis by simp
  qed
  show "bs' ! first_occupied bs \<noteq> []" if "first_occupied bs < length bs'"
    using that assms first_occupied_at [of bs] by simp
qed

lemma first_occupied_replicate: "first_occupied (replicate n []) = n"
  by (rule first_occupiedI) simp_all

lemma distinct_keys_concat:
  assumes "\<And>i. i < length bs \<Longrightarrow> distinct (map fst (bs ! i))"
    and "\<And>i e. i < length bs \<Longrightarrow> e \<in> set (bs ! i) \<Longrightarrow> g (fst e) = off + i"
  shows "distinct (map fst (concat bs))"
  using assms
proof (induction bs arbitrary: off)
  case Nil
  then show ?case by simp
next
  case (Cons c cs)
  have dc: "distinct (map fst c)" using Cons.prems(1) [of 0] by simp
  have gc: "\<And>e. e \<in> set c \<Longrightarrow> g (fst e) = off" using Cons.prems(2) [of 0] by simp
  have rest: "distinct (map fst (concat cs))"
  proof (rule Cons.IH [of "Suc off"])
    show "distinct (map fst (cs ! i))" if "i < length cs" for i
      using that Cons.prems(1) [of "Suc i"] by simp
    show "g (fst e) = Suc off + i" if "i < length cs" "e \<in> set (cs ! i)" for i e
      using that Cons.prems(2) [of "Suc i" e] by simp
  qed
  have "fst ` set c \<inter> fst ` set (concat cs) = {}"
  proof (rule ccontr)
    assume "fst ` set c \<inter> fst ` set (concat cs) \<noteq> {}"
    then obtain x where "x \<in> fst ` set c" and "x \<in> fst ` set (concat cs)"
      by blast
    then obtain e e' where e: "e \<in> set c" and e': "e' \<in> set (concat cs)" and eq: "fst e = fst e'"
      by (metis imageE)
    from e' obtain ys where "ys \<in> set cs" "e' \<in> set ys"
      by auto
    then obtain i where i: "i < length cs" "e' \<in> set (cs ! i)"
      by (metis in_set_conv_nth)
    then have "g (fst e') = off + Suc i" using Cons.prems(2) [of "Suc i" e'] by simp
    with gc [OF e] eq show False by simp
  qed
  with dc rest show ?case by simp
qed

subsection \<open>One insertion\<close>

lemma insert_it_with_end:
  assumes "endFlag it" and "buckets t \<noteq> []"
  shows "insert_it_with rh h t it k v =
     (if dbl_gt (loadFactor (emplaced h t k v)) (maxLoadFactor (emplaced h t k v))
      then (case rh (emplaced h t k v) (bucketSize (emplaced h t k v) * 2) of
              Inl e \<Rightarrow> Inl e | Inr t4 \<Rightarrow> Inr (True, t4))
      else Inr (True, emplaced h t k v))"
  using assms by (simp add: insert_it_with_def hashKey_def emplaced_def Let_def)

lemma insert_it_with_found:
  assumes "b < length (buckets t)" and "p < length (buckets t ! b)"
  shows "insert_it_with rh h t (found_at b p) k v = Inr (False, overwritten t b p v)"
  using assms by (simp add: insert_it_with_def found_at_def overwritten_def)

lemma insert_kv_with_absent:
  assumes "buckets t \<noteq> []" and "k \<notin> fst ` set (buckets t ! (h k mod length (buckets t)))"
  shows "insert_kv_with rh h t k v =
     (if dbl_gt (loadFactor (emplaced h t k v)) (maxLoadFactor (emplaced h t k v))
      then (case rh (emplaced h t k v) (bucketSize (emplaced h t k v) * 2) of
              Inl e \<Rightarrow> Inl e | Inr t4 \<Rightarrow> Inr (True, t4))
      else Inr (True, emplaced h t k v))"
  using assms
  by (simp add: insert_kv_with_def find_key_absent insert_it_with_end end_it_endFlag)

lemma insert_kv_with_present:
  assumes "buckets t \<noteq> []" and "k \<in> fst ` set (buckets t ! (h k mod length (buckets t)))"
  shows "\<exists>p < length (buckets t ! (h k mod length (buckets t))).
           fst (buckets t ! (h k mod length (buckets t)) ! p) = k
           \<and> insert_kv_with rh h t k v
               = Inr (False, overwritten t (h k mod length (buckets t)) p v)"
proof -
  from find_key_present [of t k h] assms obtain p where
    p: "p < length (buckets t ! (h k mod length (buckets t)))"
       "fst (buckets t ! (h k mod length (buckets t)) ! p) = k"
       "find_key h t k = Inr (found_at (h k mod length (buckets t)) p, t)"
    by blast
  have "h k mod length (buckets t) < length (buckets t)" using assms(1) by simp
  then have "insert_kv_with rh h t k v = Inr (False, overwritten t (h k mod length (buckets t)) p v)"
    using p by (simp add: insert_kv_with_def insert_it_with_found)
  with p show ?thesis by blast
qed

lemma insert_kv_with_no_buckets:
  "buckets t = [] \<Longrightarrow> insert_kv_with rh h t k v = Inl undefined_behaviour"
  by (simp add: insert_kv_with_def find_key_no_buckets)

lemma buckets_emplaced:
  "buckets (emplaced h t k v) =
     (buckets t)[h k mod length (buckets t) := (k, v) # buckets t ! (h k mod length (buckets t))]"
  by (simp add: emplaced_def Let_def)

lemma tableSize_emplaced: "tableSize (emplaced h t k v) = Suc (tableSize t)"
  by (simp add: emplaced_def Let_def)

lemma maxLoadFactor_emplaced: "maxLoadFactor (emplaced h t k v) = maxLoadFactor t"
  by (simp add: emplaced_def Let_def)

lemma firstBucketIt_emplaced:
  "firstBucketIt (emplaced h t k v) = min (h k mod length (buckets t)) (firstBucketIt t)"
  by (simp add: emplaced_def Let_def min_def)

lemma entries_emplaced:
  "buckets t \<noteq> [] \<Longrightarrow> mset (entries (emplaced h t k v)) = add_mset (k, v) (mset (entries t))"
  by (simp add: entries_def buckets_emplaced mset_concat_cons)

lemma placed_keys:
  assumes "placed h t" and "buckets t \<noteq> []"
  shows "k \<in> fst ` set (entries t) \<longleftrightarrow> k \<in> fst ` set (buckets t ! (h k mod length (buckets t)))"
proof
  assume "k \<in> fst ` set (entries t)"
  then obtain e where e: "e \<in> set (concat (buckets t))" "fst e = k"
    by (auto simp: entries_def)
  then obtain ys where "ys \<in> set (buckets t)" "e \<in> set ys" by auto
  then obtain i where i: "i < length (buckets t)" "e \<in> set (buckets t ! i)"
    by (metis in_set_conv_nth)
  with assms(1) have "h (fst e) mod length (buckets t) = i"
    by (simp add: placed_def)
  with i e show "k \<in> fst ` set (buckets t ! (h k mod length (buckets t)))"
    by auto
next
  assume "k \<in> fst ` set (buckets t ! (h k mod length (buckets t)))"
  moreover have "h k mod length (buckets t) < length (buckets t)" using assms(2) by simp
  ultimately show "k \<in> fst ` set (entries t)"
    unfolding entries_def by (metis (no_types, lifting) UN_I image_iff nth_mem set_concat)
qed

lemma struct_ok_emplaced:
  assumes "struct_ok h t" and "buckets t \<noteq> []"
    and "k \<notin> fst ` set (buckets t ! (h k mod length (buckets t)))"
  shows "struct_ok h (emplaced h t k v)"
proof -
  define b where "b = h k mod length (buckets t)"
  have bl: "b < length (buckets t)" using assms(2) by (simp add: b_def)
  have bs: "buckets (emplaced h t k v) = (buckets t)[b := (k, v) # buckets t ! b]"
    by (simp add: buckets_emplaced b_def)
  have "cursor_ok (emplaced h t k v)"
    using assms(1) bl
    by (simp add: struct_ok_def cursor_ok_def bs firstBucketIt_emplaced first_occupied_cons b_def [symmetric])
  moreover have "size_ok (emplaced h t k v)"
  proof -
    have "length (entries (emplaced h t k v)) = Suc (length (entries t))"
      using entries_emplaced [OF assms(2), of h k v] by (metis size_mset size_add_mset)
    with assms(1) show ?thesis
      by (simp add: struct_ok_def size_ok_def tableSize_emplaced)
  qed
  moreover have "placed h (emplaced h t k v)"
    unfolding placed_def bs
  proof (intro allI impI ballI)
    fix i e assume i: "i < length ((buckets t)[b := (k, v) # buckets t ! b])"
      and e: "e \<in> set ((buckets t)[b := (k, v) # buckets t ! b] ! i)"
    from assms(1) have pl: "\<And>i e. i < length (buckets t) \<Longrightarrow> e \<in> set (buckets t ! i)
        \<Longrightarrow> h (fst e) mod length (buckets t) = i"
      by (simp add: struct_ok_def placed_def)
    show "h (fst e) mod length ((buckets t)[b := (k, v) # buckets t ! b]) = i"
    proof (cases "i = b")
      case True
      with e bl have "e = (k, v) \<or> e \<in> set (buckets t ! b)" by simp
      then show ?thesis using pl [OF bl, of e] True by (auto simp: b_def)
    next
      case False
      with i e show ?thesis using pl [of i e] by simp
    qed
  qed
  moreover have "keys_distinct (emplaced h t k v)"
    unfolding keys_distinct_def bs
  proof (intro allI impI)
    fix i assume i: "i < length ((buckets t)[b := (k, v) # buckets t ! b])"
    from assms(1) have kd: "\<And>i. i < length (buckets t) \<Longrightarrow> distinct (map fst (buckets t ! i))"
      by (simp add: struct_ok_def keys_distinct_def)
    show "distinct (map fst ((buckets t)[b := (k, v) # buckets t ! b] ! i))"
    proof (cases "i = b")
      case True
      with bl kd [OF bl] assms(3) show ?thesis by (simp add: b_def)
    next
      case False
      with i kd [of i] show ?thesis by simp
    qed
  qed
  ultimately show ?thesis by (simp add: struct_ok_def)
qed

lemma overwritten_fields:
  "tableSize (overwritten t b p v) = tableSize t"
  "firstBucketIt (overwritten t b p v) = firstBucketIt t"
  "maxLoadFactor (overwritten t b p v) = maxLoadFactor t"
  "length (buckets (overwritten t b p v)) = length (buckets t)"
  by (simp_all add: overwritten_def)

lemma overwritten_keys:
  assumes "b < length (buckets t)"
  shows "map (map fst) (buckets (overwritten t b p v)) = map (map fst) (buckets t)"
proof (rule nth_equalityI)
  show "length (map (map fst) (buckets (overwritten t b p v))) = length (map (map fst) (buckets t))"
    by (simp add: overwritten_def)
  fix i assume "i < length (map (map fst) (buckets (overwritten t b p v)))"
  then have i: "i < length (buckets t)" by (simp add: overwritten_def)
  show "map (map fst) (buckets (overwritten t b p v)) ! i = map (map fst) (buckets t) ! i"
  proof (cases "i = b")
    case True
    have "map fst ((buckets t ! b)[p := (fst (buckets t ! b ! p), v)]) = map fst (buckets t ! b)"
      by (cases "p < length (buckets t ! b)")
         (simp_all add: map_update list_update_same_conv list_update_beyond)
    with True i show ?thesis by (simp add: overwritten_def)
  next
    case False
    with i show ?thesis by (simp add: overwritten_def)
  qed
qed

lemma keys_of_buckets:
  assumes "map (map fst) bs' = map (map fst) bs"
  shows "length bs' = length bs"
    and "i < length bs \<Longrightarrow> map fst (bs' ! i) = map fst (bs ! i)"
    and "map fst (concat bs') = map fst (concat bs)"
proof -
  show len: "length bs' = length bs" using assms by (metis length_map)
  show "map fst (bs' ! i) = map fst (bs ! i)" if "i < length bs"
    using that len assms by (metis nth_map)
  show "map fst (concat bs') = map fst (concat bs)"
    using assms by (simp add: map_concat)
qed

lemma struct_ok_keys:
  assumes "struct_ok h t" and "map (map fst) (buckets t') = map (map fst) (buckets t)"
    and "tableSize t' = tableSize t" and "firstBucketIt t' = firstBucketIt t"
  shows "struct_ok h t'"
proof -
  note k = keys_of_buckets [OF assms(2)]
  have emp: "(buckets t' ! i = []) = (buckets t ! i = [])" if "i < length (buckets t)" for i
    using k(2) [OF that] by (metis map_is_Nil_conv)
  have "cursor_ok t'"
    using assms(1,4) first_occupied_cong [of "buckets t'" "buckets t"] k(1) emp
    by (simp add: struct_ok_def cursor_ok_def)
  moreover have "size_ok t'"
    using assms(1,3) k(3) by (simp add: struct_ok_def size_ok_def entries_def) (metis length_map)
  moreover have "placed h t'"
    unfolding placed_def
  proof (intro allI impI ballI)
    fix i e assume i: "i < length (buckets t')" and e: "e \<in> set (buckets t' ! i)"
    then have "fst e \<in> set (map fst (buckets t ! i))"
      using k(1) k(2) [of i] by (metis image_eqI list.set_map)
    then obtain e' where e': "e' \<in> set (buckets t ! i)" "fst e' = fst e" by auto
    from assms(1) have "\<forall>b < length (buckets t). \<forall>e \<in> set (buckets t ! b).
        h (fst e) mod length (buckets t) = b"
      by (simp add: struct_ok_def placed_def)
    with i k(1) e'(1) have "h (fst e') mod length (buckets t) = i" by simp
    with e'(2) k(1) show "h (fst e) mod length (buckets t') = i" by simp
  qed
  moreover have "keys_distinct t'"
    using assms(1) k(1) k(2) by (simp add: struct_ok_def keys_distinct_def)
  ultimately show ?thesis by (simp add: struct_ok_def)
qed

lemma struct_ok_overwritten:
  "struct_ok h t \<Longrightarrow> b < length (buckets t) \<Longrightarrow> struct_ok h (overwritten t b p v)"
  by (rule struct_ok_keys) (simp_all add: overwritten_keys overwritten_fields)

lemma entries_overwritten:
  "b < length (buckets t) \<Longrightarrow> map fst (entries (overwritten t b p v)) = map fst (entries t)"
  unfolding entries_def by (rule keys_of_buckets(3)) (rule overwritten_keys)

subsection \<open>Insertion and rehashing\<close>

text \<open>
  What a completed \<^verbatim>\<open>insert(key, value)\<close> does, for any sound rehash it may call;
  then \<open>rehash\<close> is sound for every nesting bound.
\<close>

lemma rehash_soundD:
  assumes "rehash_sound h rh" and "struct_ok h t" and "rh t n = Inr t'"
  shows "struct_ok h t'" and "mset (entries t') = mset (entries t)"
    and "maxLoadFactor t' = maxLoadFactor t"
  using assms unfolding rehash_sound_def by blast+

lemma insert_kv_with_sound:
  assumes rh: "rehash_sound h rh" and st: "struct_ok h t"
    and ins: "insert_kv_with rh h t k v = Inr (r, t')"
  shows "struct_ok h t'" and "maxLoadFactor t' = maxLoadFactor t" and "buckets t' \<noteq> []"
    and "k \<in> fst ` set (entries t) \<Longrightarrow>
           \<not> r \<and> map fst (entries t') = map fst (entries t) \<and> tableSize t' = tableSize t
           \<and> length (buckets t') = length (buckets t)"
    and "k \<notin> fst ` set (entries t) \<Longrightarrow> r \<and> mset (entries t') = add_mset (k, v) (mset (entries t))"
proof -
  have ne: "buckets t \<noteq> []"
    using ins insert_kv_with_no_buckets [of t rh h k v] by auto
  define b where "b = h k mod length (buckets t)"
  have bl: "b < length (buckets t)" using ne by (simp add: b_def)
  have pk: "k \<in> fst ` set (entries t) \<longleftrightarrow> k \<in> fst ` set (buckets t ! b)"
    unfolding b_def using st ne by (intro placed_keys) (simp_all add: struct_ok_def)
  have all: "struct_ok h t' \<and> maxLoadFactor t' = maxLoadFactor t \<and> buckets t' \<noteq> []
     \<and> (k \<in> fst ` set (entries t) \<longrightarrow>
           \<not> r \<and> map fst (entries t') = map fst (entries t) \<and> tableSize t' = tableSize t
           \<and> length (buckets t') = length (buckets t))
     \<and> (k \<notin> fst ` set (entries t) \<longrightarrow> r \<and> mset (entries t') = add_mset (k, v) (mset (entries t)))"
  proof (cases "k \<in> fst ` set (buckets t ! b)")
    case True
    from insert_kv_with_present [of t k h rh v] ne True obtain p where
      "insert_kv_with rh h t k v = Inr (False, overwritten t b p v)"
      unfolding b_def by blast
    with ins have r: "r = False" and t': "t' = overwritten t b p v" by simp_all
    have "buckets t' \<noteq> []"
      using ne overwritten_fields(4) [of t b p v] t' by (metis length_0_conv)
    then show ?thesis
      using True pk r t' st bl
      by (simp add: struct_ok_overwritten overwritten_fields entries_overwritten)
  next
    case False
    define t3 where "t3 = emplaced h t k v"
    have st3: "struct_ok h t3"
      unfolding t3_def using st ne False by (intro struct_ok_emplaced) (simp_all add: b_def)
    have en3: "mset (entries t3) = add_mset (k, v) (mset (entries t))"
      unfolding t3_def using ne by (rule entries_emplaced)
    have ne3: "buckets t3 \<noteq> []"
      using ne by (simp add: t3_def buckets_emplaced)
    have ml3: "maxLoadFactor t3 = maxLoadFactor t"
      by (simp add: t3_def maxLoadFactor_emplaced)
    have eq: "insert_kv_with rh h t k v =
       (if dbl_gt (loadFactor t3) (maxLoadFactor t3)
        then (case rh t3 (bucketSize t3 * 2) of Inl e \<Rightarrow> Inl e | Inr t4 \<Rightarrow> Inr (True, t4))
        else Inr (True, t3))"
      unfolding t3_def using ne False by (intro insert_kv_with_absent) (simp_all add: b_def)
    show ?thesis
    proof (cases "dbl_gt (loadFactor t3) (maxLoadFactor t3)")
      case over: True
      with eq ins obtain t4 where rh4: "rh t3 (bucketSize t3 * 2) = Inr t4"
        and r: "r = True" and t': "t' = t4"
        by (auto split: sum.splits)
      note s = rehash_soundD [OF rh st3 rh4]
      have "entries t4 \<noteq> []" using s(2) en3 by (metis mset_zero_iff add_mset_not_empty)
      then have "buckets t4 \<noteq> []" by (auto simp: entries_def)
      with s en3 ml3 r t' False pk show ?thesis by simp
    next
      case under: False
      with eq ins have r: "r = True" and t': "t' = t3" by simp_all
      with st3 en3 ne3 ml3 False pk show ?thesis by simp
    qed
  qed
  from all show "struct_ok h t'" and "maxLoadFactor t' = maxLoadFactor t" and "buckets t' \<noteq> []"
    and "k \<in> fst ` set (entries t) \<Longrightarrow>
           \<not> r \<and> map fst (entries t') = map fst (entries t) \<and> tableSize t' = tableSize t
           \<and> length (buckets t') = length (buckets t)"
    and "k \<notin> fst ` set (entries t) \<Longrightarrow> r \<and> mset (entries t') = add_mset (k, v) (mset (entries t))"
    by blast+
qed

lemma reinsert_sound:
  assumes rh: "rehash_sound h rh"
  shows "struct_ok h t \<Longrightarrow> distinct (map fst vec) \<Longrightarrow>
     fst ` set vec \<inter> fst ` set (entries t) = {} \<Longrightarrow>
     reinsert (insert_kv_with rh h) vec t = Inr t' \<Longrightarrow>
     struct_ok h t' \<and> mset (entries t') = mset vec + mset (entries t)
     \<and> maxLoadFactor t' = maxLoadFactor t"
proof (induction vec arbitrary: t)
  case Nil
  then show ?case by simp
next
  case (Cons x vec)
  obtain k v where x: "x = (k, v)" by (cases x)
  from Cons.prems(4) obtain r t1 where ins: "insert_kv_with rh h t k v = Inr (r, t1)"
    and rest: "reinsert (insert_kv_with rh h) vec t1 = Inr t'"
    by (auto simp: x split: sum.splits)
  have fresh: "k \<notin> fst ` set (entries t)"
    using Cons.prems(3) by (auto simp: x)
  note s = insert_kv_with_sound [OF rh Cons.prems(1) ins]
  have en1: "mset (entries t1) = add_mset (k, v) (mset (entries t))"
    using s(5) [OF fresh] by simp
  then have keys1: "fst ` set (entries t1) = insert k (fst ` set (entries t))"
    by (metis fst_conv image_insert set_mset_add_mset_insert set_mset_mset)
  have "struct_ok h t' \<and> mset (entries t') = mset vec + mset (entries t1)
     \<and> maxLoadFactor t' = maxLoadFactor t1"
  proof (rule Cons.IH [OF s(1) _ _ rest])
    show "distinct (map fst vec)" using Cons.prems(2) by simp
    show "fst ` set vec \<inter> fst ` set (entries t1) = {}"
      using Cons.prems(2,3) keys1 by (auto simp: x)
  qed
  with s(2) en1 show ?case by (auto simp: x)
qed

lemma struct_ok_distinct: "struct_ok h t \<Longrightarrow> distinct (map fst (entries t))"
  unfolding entries_def
  by (rule distinct_keys_concat [where g = "\<lambda>k. h k mod length (buckets t)" and off = 0])
     (simp_all add: struct_ok_def keys_distinct_def placed_def)

lemma struct_ok_cleared:
  "struct_ok h (t\<lparr>tableSize := 0, buckets := replicate n [], firstBucketIt := n\<rparr>)"
  by (simp add: struct_ok_def cursor_ok_def size_ok_def placed_def keys_distinct_def
      entries_def first_occupied_replicate)

lemma rehash_is_sound: "rehash_sound h (rehash fuel h sizes)"
proof (induction fuel)
  case 0
  show ?case by (simp add: rehash_sound_def)
next
  case (Suc fuel)
  show ?case
    unfolding rehash_sound_def
  proof (intro allI impI)
    fix t :: "('a, 'b) HashTable" and m t'
    assume st: "struct_ok h t" and re: "rehash (Suc fuel) h sizes t m = Inr t'"
    from re obtain n where fm: "findMinimumBucketSize sizes t m = Inr n"
      by (auto split: sum.splits)
    show "struct_ok h t' \<and> mset (entries t') = mset (entries t)
        \<and> maxLoadFactor t' = maxLoadFactor t"
    proof (cases "n = length (buckets t)")
      case True
      with re fm have "t' = t" by simp
      with st show ?thesis by simp
    next
      case False
      define t0 where "t0 = t\<lparr>tableSize := 0, buckets := replicate n [], firstBucketIt := n\<rparr>"
      have dr: "drain t = Inr (entries t)"
        using st by (intro drain_entries) (simp add: struct_ok_def)
      from re fm False dr
      have rei: "reinsert (insert_kv_with (rehash fuel h sizes) h) (entries t) t0 = Inr t'"
        by (simp add: t0_def)
      have st0: "struct_ok h t0" unfolding t0_def by (rule struct_ok_cleared)
      have en0: "entries t0 = []" by (simp add: t0_def entries_def)
      have "struct_ok h t' \<and> mset (entries t') = mset (entries t) + mset (entries t0)
         \<and> maxLoadFactor t' = maxLoadFactor t0"
        using Suc.IH st0 struct_ok_distinct [OF st] _ rei
        by (rule reinsert_sound) (simp add: en0)
      then show ?thesis using en0 by (simp add: t0_def)
    qed
  qed
qed

subsection \<open>Erasure\<close>

lemma erase_it_cases:
  assumes "erase_it t it = Inr (it', t')"
  shows "it' = it \<and> (endFlag it \<and> t' = t
     \<or> \<not> endFlag it \<and> bucketIt it < length (buckets t)
       \<and> snd (listItBefore it) < length (buckets t ! bucketIt it)
       \<and> t' = erased t (bucketIt it) (snd (listItBefore it)))"
proof (cases "endFlag it")
  case True
  with assms show ?thesis by (simp add: erase_it_def)
next
  case False
  obtain b p where lb: "listItBefore it = (b, p)" by (cases "listItBefore it")
  from assms False lb have ok: "bucketIt it < length (buckets t)" "b = bucketIt it"
      "p < length (buckets t ! b)"
    by (auto simp: erase_it_def split: if_splits)
  with assms False lb show ?thesis
    by (auto simp: erase_it_def erased_def Let_def split: if_splits)
qed

lemma erase_it_found:
  assumes "b < length (buckets t)" and "p < length (buckets t ! b)"
  shows "erase_it t (found_at b p) = Inr (found_at b p, erased t b p)"
  using assms by (simp add: erase_it_def erased_def found_at_def Let_def)

lemma buckets_erased:
  "buckets (erased t b p) = (buckets t)[b := take p (buckets t ! b) @ drop (Suc p) (buckets t ! b)]"
  by (simp add: erased_def Let_def)

lemma maxLoadFactor_erased: "maxLoadFactor (erased t b p) = maxLoadFactor t"
  by (simp add: erased_def Let_def)

lemma tableSize_erased: "0 < tableSize t \<Longrightarrow> tableSize (erased t b p) = tableSize t - 1"
  by (simp add: erased_def Let_def)

lemma firstBucketIt_erased:
  "firstBucketIt (erased t b p) =
     (if firstBucketIt t < b then firstBucketIt t else scan (buckets (erased t b p)) b)"
  by (simp add: erased_def Let_def)

lemma first_occupied_shrunk:
  assumes b: "b < length bs" and ne: "bs ! b \<noteq> []"
  shows "first_occupied bs < b \<Longrightarrow> first_occupied (bs[b := c]) = first_occupied bs"
    and "\<not> first_occupied bs < b \<Longrightarrow> scan (bs[b := c]) b = first_occupied (bs[b := c])"
proof -
  have le: "first_occupied bs \<le> b"
  proof (rule ccontr)
    assume "\<not> first_occupied bs \<le> b"
    then have "b < first_occupied bs" by simp
    from first_occupied_before [OF this] ne show False by simp
  qed
  show "first_occupied (bs[b := c]) = first_occupied bs" if lt: "first_occupied bs < b"
  proof (rule first_occupiedI)
    show "first_occupied bs \<le> length (bs[b := c])" using lt b by simp
    show "bs[b := c] ! j = []" if "j < first_occupied bs" for j
      using that lt first_occupied_before [of j bs] by simp
    show "bs[b := c] ! first_occupied bs \<noteq> []"
      using lt b first_occupied_at [of bs] by simp
  qed
  show "scan (bs[b := c]) b = first_occupied (bs[b := c])" if "\<not> first_occupied bs < b"
  proof (rule scan_from)
    from that le have eq: "first_occupied bs = b" by simp
    show "b \<le> first_occupied (bs[b := c])"
    proof (rule ccontr)
      assume "\<not> b \<le> first_occupied (bs[b := c])"
      then have lt: "first_occupied (bs[b := c]) < b" by simp
      with b have "first_occupied (bs[b := c]) < length (bs[b := c])" by simp
      from first_occupied_at [OF this] lt
      have "bs ! first_occupied (bs[b := c]) \<noteq> []" by simp
      moreover have "bs ! first_occupied (bs[b := c]) = []"
        using lt eq by (intro first_occupied_before) simp
      ultimately show False by simp
    qed
  qed
qed

lemma struct_ok_erased:
  assumes st: "struct_ok h t" and b: "b < length (buckets t)" and p: "p < length (buckets t ! b)"
  shows "struct_ok h (erased t b p)"
    and "add_mset (buckets t ! b ! p) (mset (entries (erased t b p))) = mset (entries t)"
    and "tableSize (erased t b p) = tableSize t - 1" and "0 < tableSize t"
proof -
  define c where "c = take p (buckets t ! b) @ drop (Suc p) (buckets t ! b)"
  have bs: "buckets (erased t b p) = (buckets t)[b := c]"
    by (simp add: buckets_erased c_def)
  have ne: "buckets t ! b \<noteq> []" using p by auto
  have sz: "tableSize t = length (concat (buckets t))"
    using st by (simp add: struct_ok_def size_ok_def entries_def)
  have len: "Suc (length (concat ((buckets t)[b := c]))) = length (concat (buckets t))"
    unfolding c_def using b p by (rule length_concat_remove)
  show pos: "0 < tableSize t" using sz len by linarith
  show ts: "tableSize (erased t b p) = tableSize t - 1"
    using pos by (rule tableSize_erased)
  show "add_mset (buckets t ! b ! p) (mset (entries (erased t b p))) = mset (entries t)"
    unfolding entries_def bs c_def using b p by (rule mset_concat_remove)
  have fo: "firstBucketIt t = first_occupied (buckets t)"
    using st by (simp add: struct_ok_def cursor_ok_def)
  have "cursor_ok (erased t b p)"
    using first_occupied_shrunk [OF b ne, of c] fo
    by (simp add: cursor_ok_def firstBucketIt_erased bs)
  moreover have "size_ok (erased t b p)"
    using ts sz len by (simp add: size_ok_def entries_def bs)
  moreover have sub: "set c \<subseteq> set (buckets t ! b)"
    unfolding c_def using set_take_subset [of p "buckets t ! b"]
      set_drop_subset [of "Suc p" "buckets t ! b"] by auto
  have "placed h (erased t b p)"
    unfolding placed_def bs
  proof (intro allI impI ballI)
    fix i e assume i: "i < length ((buckets t)[b := c])" and e: "e \<in> set ((buckets t)[b := c] ! i)"
    from st have pl: "\<forall>b < length (buckets t). \<forall>e \<in> set (buckets t ! b).
        h (fst e) mod length (buckets t) = b"
      by (simp add: struct_ok_def placed_def)
    have "e \<in> set (buckets t ! i)"
      using e i sub by (cases "i = b") auto
    with pl i show "h (fst e) mod length ((buckets t)[b := c]) = i" by simp
  qed
  moreover have "keys_distinct (erased t b p)"
    unfolding keys_distinct_def bs
  proof (intro allI impI)
    fix i assume i: "i < length ((buckets t)[b := c])"
    from st have kd: "\<forall>b < length (buckets t). distinct (map fst (buckets t ! b))"
      by (simp add: struct_ok_def keys_distinct_def)
    have "buckets t ! b = take p (buckets t ! b) @ buckets t ! b ! p # drop (Suc p) (buckets t ! b)"
      using p by (rule id_take_nth_drop)
    then have "map fst (buckets t ! b) = map fst (take p (buckets t ! b))
        @ fst (buckets t ! b ! p) # map fst (drop (Suc p) (buckets t ! b))"
      by (metis list.simps(9) map_append)
    moreover have "distinct (map fst (buckets t ! b))" using kd b by simp
    ultimately have "distinct (map fst c)" by (simp add: c_def)
    with kd i show "distinct (map fst ((buckets t)[b := c] ! i))"
      by (cases "i = b") auto
  qed
  ultimately show "struct_ok h (erased t b p)" by (simp add: struct_ok_def)
qed

subsection \<open>Every reachable table satisfies the structural invariant\<close>

lemma find_key_same: "find_key h t k = Inr (it, t1) \<Longrightarrow> t1 = t"
  by (auto simp: find_key_def split: sum.splits option.splits)

lemma insert_it_after_find:
  "find_key h t key = Inr (it, t1) \<Longrightarrow>
     insert_it fuel h sizes t1 it key val = insert_kv fuel h sizes t key val"
  by (simp add: insert_it_def insert_kv_def insert_kv_with_def)

lemma find_key_cases:
  assumes "find_key h t k = Inr (it, t1)"
  shows "t1 = t \<and> buckets t \<noteq> [] \<and>
     (endFlag it \<and> k \<notin> fst ` set (buckets t ! (h k mod length (buckets t)))
      \<or> (\<exists>p < length (buckets t ! (h k mod length (buckets t))).
            it = found_at (h k mod length (buckets t)) p
            \<and> fst (buckets t ! (h k mod length (buckets t)) ! p) = k))"
proof -
  have ne: "buckets t \<noteq> []"
    using assms find_key_no_buckets [of t h k] by auto
  show ?thesis
  proof (cases "k \<in> fst ` set (buckets t ! (h k mod length (buckets t)))")
    case True
    from find_key_present [of t k h] ne True assms show ?thesis by auto
  next
    case False
    from find_key_absent [of t k h] ne False assms show ?thesis
      by (auto simp: end_it_endFlag)
  qed
qed

lemma found_at_not_end: "\<not> endFlag (found_at b p)"
  by (simp add: found_at_def)

lemma inv_insert_kv:
  assumes "struct_ok h t" and "insert_kv fuel h sizes t key val = Inr (r, t')"
  shows "struct_ok h t'" and "buckets t' \<noteq> []"
proof -
  from assms(2) have ins: "insert_kv_with (rehash fuel h sizes) h t key val = Inr (r, t')"
    by (simp add: insert_kv_def)
  note s = insert_kv_with_sound [OF rehash_is_sound assms(1) ins]
  from s(1) show "struct_ok h t'" .
  from s(3) show "buckets t' \<noteq> []" .
qed

lemma inv_erase_it:
  assumes "struct_ok h t" and "erase_it t it = Inr (it', t')"
  shows "struct_ok h t'"
  using erase_it_cases [OF assms(2)] assms(1) struct_ok_erased(1) [of h t] by auto

lemma inv_erase_key:
  assumes "struct_ok h t" and "erase_key h t key = Inr (r, t')"
  shows "struct_ok h t'"
proof -
  from assms(2) obtain it t1 where f: "find_key h t key = Inr (it, t1)"
    by (auto simp: erase_key_def split: sum.splits)
  then have t1: "t1 = t" by (rule find_key_same)
  show ?thesis
  proof (cases "endFlag it")
    case True
    with assms f t1 show ?thesis by (simp add: erase_key_def)
  next
    case False
    with assms(2) f t1 obtain it' where "erase_it t it = Inr (it', t')"
      by (auto simp: erase_key_def split: sum.splits)
    with assms(1) show ?thesis by (rule inv_erase_it)
  qed
qed

lemma inv_rehash:
  assumes "struct_ok h t" and "rehash fuel h sizes t n = Inr t'"
  shows "struct_ok h t'"
  using rehash_soundD(1) [OF rehash_is_sound assms] .

lemma inv_access:
  assumes "struct_ok h t" and "access fuel h sizes dflt t key = Inr (val, t')"
  shows "struct_ok h t'"
proof -
  from assms(2) obtain it t1 where f: "find_key h t key = Inr (it, t1)"
    by (auto simp: access_def split: sum.splits)
  then have t1: "t1 = t" by (rule find_key_same)
  show ?thesis
  proof (cases "endFlag it")
    case True
    with assms(2) f t1 obtain b t2 where ins: "insert_kv fuel h sizes t key dflt = Inr (b, t2)"
      by (auto simp: access_def split: sum.splits)
    with assms(2) f t1 True obtain it' t3 where f': "find_key h t2 key = Inr (it', t3)"
      by (auto simp: access_def split: sum.splits)
    then have "t3 = t2" by (rule find_key_same)
    with assms(2) f t1 True ins f' have "t' = t2"
      by (auto simp: access_def split: sum.splits)
    with inv_insert_kv(1) [OF assms(1) ins] show ?thesis by simp
  next
    case False
    with assms(2) f t1 have "t' = t"
      by (auto simp: access_def split: sum.splits)
    with assms(1) show ?thesis by simp
  qed
qed

lemma inv_setMaxLoadFactor:
  assumes "struct_ok h t" and "setMaxLoadFactor fuel h sizes t f = Inr t'"
  shows "struct_ok h t'"
proof -
  from assms(2)
  have re: "rehash fuel h sizes (t\<lparr>maxLoadFactor := f\<rparr>) (length (buckets t)) = Inr t'"
    by (auto simp: setMaxLoadFactor_def split: if_splits)
  have "struct_ok h (t\<lparr>maxLoadFactor := f\<rparr>)"
    using assms(1)
    by (simp add: struct_ok_def cursor_ok_def size_ok_def placed_def keys_distinct_def
        entries_def)
  then show ?thesis using re by (rule inv_rehash)
qed

lemmas inv_defs = struct_ok_def cursor_ok_def size_ok_def placed_def keys_distinct_def
  entries_def

lemma inv_copy: "struct_ok h t \<Longrightarrow> struct_ok h (HashTable_copy t)"
  by (auto simp: inv_defs HashTable_copy_def)

lemma inv_assign: "struct_ok h t \<Longrightarrow> struct_ok h (assign this t)"
  by (auto simp: inv_defs assign_def)

lemma inv_empty:
  "struct_ok h \<lparr>buckets = replicate n [], firstBucketIt = n, tableSize = 0, maxLoadFactor = m\<rparr>"
  by (simp add: inv_defs first_occupied_replicate)

lemma inv_default: "struct_ok h (HashTable_default sizes)"
  unfolding HashTable_default_def by (rule inv_empty)

lemma HashTable_sized_eq:
  "HashTable_sized sizes n =
     Inr \<lparr>buckets = replicate n [], firstBucketIt = n, tableSize = 0, maxLoadFactor = Finite (1 / 2)\<rparr>"
  by (simp add: table_defs)

lemma inv_sized: "HashTable_sized sizes n = Inr t \<Longrightarrow> struct_ok h t"
  using inv_empty [of h n "Finite (1 / 2)"] by (auto simp: HashTable_sized_eq)

lemma inv_mutation:
  assumes "mutation h sizes t t'" and "struct_ok h t"
  shows "struct_ok h t'"
  using assms
proof (induction rule: mutation.induct)
  case (by_insert_kv fuel t key val r t')
  from by_insert_kv(2,1) show ?case by (rule inv_insert_kv(1))
next
  case (by_insert_it t key it t1 fuel val r t')
  then have "insert_kv fuel h sizes t key val = Inr (r, t')"
    by (simp add: insert_it_after_find)
  with by_insert_it(3) show ?case by (rule inv_insert_kv(1))
next
  case (by_erase_key t key r t')
  from by_erase_key(2,1) show ?case by (rule inv_erase_key)
next
  case (by_erase_it t it it' t')
  from by_erase_it(2,1) show ?case by (rule inv_erase_it)
next
  case (by_access fuel dflt t key val t')
  from by_access(2,1) show ?case by (rule inv_access)
next
  case (by_rehash fuel t n t')
  from by_rehash(2,1) show ?case by (rule inv_rehash)
next
  case (by_setMaxLoadFactor fuel t f t')
  from by_setMaxLoadFactor(2,1) show ?case by (rule inv_setMaxLoadFactor)
next
  case (by_copy t)
  then show ?case by (rule inv_copy)
next
  case (by_assign t this)
  then show ?case by (rule inv_assign)
qed

lemma inv_reachable: "reachable h sizes t \<Longrightarrow> struct_ok h t"
proof (induction rule: reachable.induct)
  case default
  show ?case by (rule inv_default)
next
  case (sized n t)
  then show ?case by (rule inv_sized)
next
  case (step t t')
  from step(2,3) show ?case by (rule inv_mutation)
qed

subsection \<open>Overwriting a present key\<close>

lemma insert_kv_present:
  assumes st: "struct_ok h t" and ne: "buckets t \<noteq> []"
    and k: "key \<in> fst ` set (entries t)"
  shows "\<exists>p < length (buckets t ! (h key mod length (buckets t))).
           fst (buckets t ! (h key mod length (buckets t)) ! p) = key
           \<and> insert_kv fuel h sizes t key v
               = Inr (False, overwritten t (h key mod length (buckets t)) p v)"
proof -
  have "key \<in> fst ` set (buckets t ! (h key mod length (buckets t)))"
    using placed_keys [of h t key] st ne k by (simp add: struct_ok_def)
  with ne show ?thesis
    using insert_kv_with_present [where t = t and k = key and h = h
        and rh = "rehash fuel h sizes" and v = v]
    by (simp add: insert_kv_def)
qed

lemma entries_nonempty_buckets: "key \<in> fst ` set (entries t) \<Longrightarrow> buckets t \<noteq> []"
  by (auto simp: entries_def)

lemma access_overwritten:
  assumes st: "struct_ok h t" and ne: "buckets t \<noteq> []"
    and p: "p < length (buckets t ! (h key mod length (buckets t)))"
    and k: "fst (buckets t ! (h key mod length (buckets t)) ! p) = key"
  shows "access fuel h sizes dflt (overwritten t (h key mod length (buckets t)) p v) key
     = Inr (v, overwritten t (h key mod length (buckets t)) p v)"
proof -
  define b where "b = h key mod length (buckets t)"
  define t' where "t' = overwritten t b p v"
  define chain' where "chain' = (buckets t ! b)[p := (key, v)]"
  have bl: "b < length (buckets t)" using ne by (simp add: b_def)
  have len: "length (buckets t') = length (buckets t)"
    by (simp add: t'_def overwritten_fields)
  have ne': "buckets t' \<noteq> []" using ne len by (metis length_0_conv)
  have b': "h key mod length (buckets t') = b" by (simp add: len b_def)
  have ch: "buckets t' ! b = chain'"
    using bl k by (simp add: t'_def overwritten_def chain'_def b_def)
  have pl: "p < length chain'" using p by (simp add: chain'_def b_def)
  have at: "chain' ! p = (key, v)" using p by (simp add: chain'_def b_def)
  have st': "struct_ok h t'"
    unfolding t'_def using st bl by (rule struct_ok_overwritten)
  then have dist: "distinct (map fst chain')"
    using bl len ch by (auto simp: struct_ok_def keys_distinct_def)
  have "key \<in> fst ` set (buckets t' ! (h key mod length (buckets t')))"
    unfolding b' ch using pl at by (metis fst_conv image_eqI nth_mem)
  with ne' find_key_present [where t = t' and k = key and h = h] obtain q where
    q: "q < length chain'" "fst (chain' ! q) = key" "find_key h t' key = Inr (found_at b q, t')"
    unfolding b' ch by blast
  have "map fst chain' ! q = map fst chain' ! p"
    using q(1,2) pl at by simp
  moreover have "q < length (map fst chain')" "p < length (map fst chain')"
    using q(1) pl by simp_all
  ultimately have "q = p"
    using dist nth_eq_iff_index_eq [of "map fst chain'" q p] by blast
  with q(3) have f: "find_key h t' key = Inr (found_at b p, t')" by simp
  have "deref t' (found_at b p) = Inr (key, v)"
    using bl len ch pl at by (simp add: deref_def found_at_def)
  with f have "access fuel h sizes dflt t' key = Inr (v, t')"
    by (simp add: access_def found_at_def)
  then show ?thesis by (simp add: t'_def b_def)
qed

lemma overwritten_at_key:
  assumes "fst (buckets t ! b ! p) = key"
  shows "overwritten t b p v = t\<lparr>buckets := (buckets t)[b := (buckets t ! b)[p := (key, v)]]\<rparr>"
  using assms by (simp add: overwritten_def)

lemma insert_present:
  assumes i: "struct_ok h t" and k: "key \<in> fst ` set (concat (buckets t))"
  shows "\<exists>p t'. p < length (buckets t ! (h key mod length (buckets t)))
       \<and> fst (buckets t ! (h key mod length (buckets t)) ! p) = key
       \<and> t' = t\<lparr>buckets := (buckets t)[h key mod length (buckets t) :=
                   (buckets t ! (h key mod length (buckets t)))[p := (key, v)]]\<rparr>
       \<and> insert_kv fuel h sizes t key v = Inr (False, t')
       \<and> access fuel' h sizes dflt t' key = Inr (v, t')
       \<and> size_of t' = size_of t \<and> bucketSize t' = bucketSize t
       \<and> map (map fst) (buckets t') = map (map fst) (buckets t)"
proof -
  from i have st: "struct_ok h t" by simp
  from k have k': "key \<in> fst ` set (entries t)" by (simp add: entries_def)
  then have ne: "buckets t \<noteq> []" by (rule entries_nonempty_buckets)
  define b where "b = h key mod length (buckets t)"
  have bl: "b < length (buckets t)" using ne by (simp add: b_def)
  from insert_kv_present [where h = h and t = t and key = key and fuel = fuel
      and sizes = sizes and v = v] st ne k' obtain p where
    p: "p < length (buckets t ! b)" "fst (buckets t ! b ! p) = key"
       "insert_kv fuel h sizes t key v = Inr (False, overwritten t b p v)"
    unfolding b_def by blast
  have acc: "access fuel' h sizes dflt (overwritten t b p v) key = Inr (v, overwritten t b p v)"
    using access_overwritten [where h = h and t = t and p = p and key = key
        and fuel = fuel' and sizes = sizes and dflt = dflt and v = v] st ne p(1,2)
    by (simp add: b_def)
  have ow: "overwritten t b p v = t\<lparr>buckets := (buckets t)[b := (buckets t ! b)[p := (key, v)]]\<rparr>"
    using p(2) by (rule overwritten_at_key)
  have "size_of (overwritten t b p v) = size_of t"
    and "bucketSize (overwritten t b p v) = bucketSize t"
    and "map (map fst) (buckets (overwritten t b p v)) = map (map fst) (buckets t)"
    using bl by (simp_all add: size_of_def bucketSize_def overwritten_fields overwritten_keys)
  with p acc ow show ?thesis unfolding b_def by metis
qed

subsection \<open>Errors and the maximum load factor\<close>

lemma increment_error: "increment t it = Inl e \<Longrightarrow> e = undefined_behaviour"
  by (auto simp: increment_def Let_def split: if_splits prod.splits)

lemma deref_error: "deref t it = Inl e \<Longrightarrow> e = undefined_behaviour"
  by (auto simp: deref_def split: if_splits prod.splits)

lemma drain_loop_error: "drain_loop t it = Inl e \<Longrightarrow> e = undefined_behaviour"
proof (induction t it rule: drain_loop.induct)
  case (1 t it)
  from "1.prems" have ne: "\<not> endFlag it"
    by (subst (asm) drain_loop.simps) (simp split: if_splits)
  show ?case
  proof (cases "deref t it")
    case (Inl e')
    with "1.prems" ne deref_error [OF Inl] show ?thesis
      by (subst (asm) drain_loop.simps) simp
  next
    case (Inr x)
    show ?thesis
    proof (cases "increment t it")
      case (Inl e')
      with "1.prems" ne Inr increment_error [OF Inl] show ?thesis
        by (subst (asm) drain_loop.simps) simp
    next
      case inc: (Inr it')
      with "1.prems" ne Inr have "drain_loop t it' = Inl e"
        by (subst (asm) drain_loop.simps) (simp split: sum.splits)
      with "1.IH" [OF ne Inr inc] show ?thesis by simp
    qed
  qed
qed

lemma drain_error: "drain t = Inl e \<Longrightarrow> e = undefined_behaviour"
  by (auto simp: drain_def begin_it_def drain_loop_error split: sum.splits if_splits)

lemma findMinimumBucketSize_error:
  "findMinimumBucketSize sizes t n = Inl e \<Longrightarrow> e = range_error ''Out of range.''"
  by (auto simp: findMinimumBucketSize_def Let_def split: if_splits option.splits)

lemma insert_kv_with_plain:
  assumes rh: "plain_rehash e0 rh" and e0: "e0 \<noteq> undefined_behaviour"
  shows "plain_insert e0 (insert_kv_with rh h)"
  unfolding plain_insert_def
proof (intro allI)
  fix t k v
  show "insert_kv_with rh h t k v \<noteq> Inl e0
    \<and> (\<forall>r t'. insert_kv_with rh h t k v = Inr (r, t') \<longrightarrow> maxLoadFactor t' = maxLoadFactor t)"
  proof (cases "buckets t = []")
    case True
    with e0 show ?thesis by (auto simp: insert_kv_with_no_buckets)
  next
    case ne: False
    show ?thesis
    proof (cases "k \<in> fst ` set (buckets t ! (h k mod length (buckets t)))")
      case True
      with ne insert_kv_with_present [where t = t and k = k and h = h and rh = rh and v = v]
      obtain p where "insert_kv_with rh h t k v
          = Inr (False, overwritten t (h k mod length (buckets t)) p v)" by blast
      then show ?thesis by (auto simp: overwritten_fields)
    next
      case False
      note eq = insert_kv_with_absent [where t = t and k = k and h = h and rh = rh
          and v = v, OF ne False]
      show ?thesis
      proof (cases "dbl_gt (loadFactor (emplaced h t k v)) (maxLoadFactor (emplaced h t k v))")
        case under: False
        with eq show ?thesis by (auto simp: maxLoadFactor_emplaced)
      next
        case True
        show ?thesis
        proof (cases "rh (emplaced h t k v) (bucketSize (emplaced h t k v) * 2)")
          case (Inl e)
          with rh have "e \<noteq> e0" by (auto simp: plain_rehash_def)
          with eq True Inl show ?thesis by simp
        next
          case (Inr t4)
          with rh have "maxLoadFactor t4 = maxLoadFactor t"
            by (auto simp: plain_rehash_def maxLoadFactor_emplaced)
          with eq True Inr show ?thesis by auto
        qed
      qed
    qed
  qed
qed

lemma reinsert_plain:
  assumes "plain_insert e0 ins"
  shows "reinsert ins vec t \<noteq> Inl e0
     \<and> (\<forall>t'. reinsert ins vec t = Inr t' \<longrightarrow> maxLoadFactor t' = maxLoadFactor t)"
proof (induction vec arbitrary: t)
  case Nil
  show ?case by simp
next
  case (Cons x vec)
  obtain k v where x: "x = (k, v)" by (cases x)
  show ?case
  proof (cases "ins t k v")
    case (Inl e)
    with assms have "e \<noteq> e0" by (auto simp: plain_insert_def)
    with Inl show ?thesis by (simp add: x)
  next
    case (Inr rt)
    obtain r t1 where rt: "rt = (r, t1)" by (cases rt)
    from assms Inr rt have "maxLoadFactor t1 = maxLoadFactor t"
      by (auto simp: plain_insert_def)
    with Cons.IH [of t1] Inr rt show ?thesis by (simp add: x)
  qed
qed

lemma rehash_plain:
  "plain_rehash (range_error ''invalid load factor!'')
     (rehash fuel h sizes :: ('k, 'v) HashTable \<Rightarrow> nat \<Rightarrow> error + ('k, 'v) HashTable)"
proof (induction fuel)
  case 0
  show ?case by (simp add: plain_rehash_def)
next
  case (Suc fuel)
  let ?e0 = "range_error ''invalid load factor!''"
  let ?ins = "insert_kv_with
      (rehash fuel h sizes :: ('k, 'v) HashTable \<Rightarrow> nat \<Rightarrow> error + ('k, 'v) HashTable) h"
  have ins: "plain_insert ?e0 ?ins"
    using Suc.IH by (rule insert_kv_with_plain) simp
  show ?case
    unfolding plain_rehash_def
  proof (intro allI)
    fix t :: "('k, 'v) HashTable" and n
    show "rehash (Suc fuel) h sizes t n \<noteq> Inl ?e0
      \<and> (\<forall>t'. rehash (Suc fuel) h sizes t n = Inr t' \<longrightarrow> maxLoadFactor t' = maxLoadFactor t)"
    proof (cases "findMinimumBucketSize sizes t n")
      case (Inl e)
      with findMinimumBucketSize_error [OF Inl] show ?thesis by simp
    next
      case fm: (Inr m)
      show ?thesis
      proof (cases "m = length (buckets t)")
        case True
        with fm show ?thesis by simp
      next
        case False
        show ?thesis
        proof (cases "drain t")
          case (Inl e)
          with drain_error [OF Inl] fm False show ?thesis by simp
        next
          case (Inr vec)
          from reinsert_plain [OF ins, of vec
              "t\<lparr>tableSize := 0, buckets := replicate m [], firstBucketIt := m\<rparr>"]
          show ?thesis using fm False Inr by simp
        qed
      qed
    qed
  qed
qed

subsection \<open>A run of the model\<close>

text \<open>
  The tables of the closed examples: sizes 5 and 11, the identity as hash function,
  keys 3, 8 and 1 inserted in this order; the third insertion rehashes to 11 buckets.
\<close>

lemma example_insert_3:
  "insert_kv 1 (\<lambda>k. k) [5, 11] (HashTable_default [5, 11]) 3 30
   = Inr (True, \<lparr>buckets = [[], [], [], [(3::nat, 30::nat)], []], firstBucketIt = 3,
                  tableSize = 1, maxLoadFactor = Finite (1 / 2)\<rparr>)"
  by code_simp







lemma example_overwrite_3:
  "insert_kv 1 (\<lambda>k. k) [5, 11]
     \<lparr>buckets = [[], [], [], [(3::nat, 30::nat)], []], firstBucketIt = 3,
      tableSize = 1, maxLoadFactor = Finite (1 / 2)\<rparr> 3 31
   = Inr (False, \<lparr>buckets = [[], [], [], [(3, 31)], []], firstBucketIt = 3,
                   tableSize = 1, maxLoadFactor = Finite (1 / 2)\<rparr>)"
  by code_simp

lemma example_set_factor:
  "setMaxLoadFactor 2 (\<lambda>k. k) [5, 11]
     \<lparr>buckets = [[], [], [], [(8::nat, 80::nat), (3, 30)], []], firstBucketIt = 3,
      tableSize = 2, maxLoadFactor = Finite (1 / 2)\<rparr> (Finite (1 / 4))
   = Inr \<lparr>buckets = [[], [], [], [(3, 30)], [], [], [], [], [(8, 80)], [], []],
           firstBucketIt = 3, tableSize = 2, maxLoadFactor = Finite (1 / 4)\<rparr>"
  by code_simp

text \<open>
  A maximum load factor that is not a number passes the test of \<^verbatim>\<open>setMaxLoadFactor\<close>,
  and no comparison with it is true afterwards: an insertion does not rehash.
\<close>

lemma example_nan_factor:
  "setMaxLoadFactor 1 (\<lambda>k. k) [5, 11] (HashTable_default [5, 11] :: (nat, nat) HashTable) NaN
   = Inr \<lparr>buckets = [[], [], [], [], []], firstBucketIt = 5, tableSize = 0,
           maxLoadFactor = NaN\<rparr>
   \<and> insert_kv 1 (\<lambda>k. k) [5, 11]
       \<lparr>buckets = [[], [], [], [], []], firstBucketIt = 5, tableSize = 0,
        maxLoadFactor = NaN\<rparr> 3 30
     = Inr (True, \<lparr>buckets = [[], [], [], [(3::nat, 30::nat)], []], firstBucketIt = 3,
                    tableSize = 1, maxLoadFactor = NaN\<rparr>)
   \<and> \<not> dbl_le (loadFactor \<lparr>buckets = [[], [], [], [(3::nat, 30::nat)], []],
                   firstBucketIt = 3, tableSize = 1, maxLoadFactor = NaN\<rparr>) NaN"
  by code_simp

section \<open>The claims\<close>

text \<open>
  C1. \<^verbatim>\<open>findMinimumBucketSize(lowerBound)\<close> is to return the smallest size of the table
  of sizes that is at least \<open>lowerBound\<close> and greater than
  \<open>floor(tableSize / maxLoadFactor)\<close>, and to raise a range error when there is none.
  The code looks a size up only when the load factor has reached the maximum; below
  it, the request comes back as it is. On the default table (five buckets, no entry,
  factor one half), whose table of sizes starts with 5, the request 4 returns 4, where
  the smallest size not below 4 is 5. Once the load factor has reached the maximum, the
  request is not looked at and the size found need not exceed the quotient: with five
  entries in five buckets and the factor 1, the request 100 returns 5.
\<close>

theorem findMinimumBucketSize_returns_request:
  "findMinimumBucketSize (5 # rest) (HashTable_default (5 # rest)) 4 = Inr 4
   \<and> lower_bound (5 # rest) (Finite 4) = Some 5
   \<and> findMinimumBucketSize (5 # rest)
       \<lparr>buckets = [[(0::nat, ''a'')], [(1, ''b'')], [(2, ''c'')], [(3, ''d'')], [(4, ''e'')]],
        firstBucketIt = 0, tableSize = 5, maxLoadFactor = Finite 1\<rparr> 100 = Inr 5"
  by (simp add: table_defs of_size_exact round_dbl_numeral)

text \<open>
  C2. An insertion that returns is to leave \<^verbatim>\<open>loadFactor() <= maxLoadFactor()\<close>. The
  insertion rehashes when the load factor is above the maximum, and
  \<^verbatim>\<open>findMinimumBucketSize\<close> then looks \<^verbatim>\<open>ceil(tableSize / maxLoadFactor)\<close> up with
  \<^verbatim>\<open>>=\<close>, where its doc comment asks for a size greater than
  \<^verbatim>\<open>floor(tableSize / maxLoadFactor)\<close>: the defect of C1. Take the default table, sizes
  5 and 11, and \<^verbatim>\<open>setMaxLoadFactor(0.19999999999999998)\<close>, the double
  \<open>7205759403792793 / 2 ^ 55\<close> just below one fifth, which is also what \<^verbatim>\<open>0.3 - 0.1\<close>
  computes. After \<^verbatim>\<open>insert(1, 10)\<close> there is one entry in five buckets: the load factor
  is the double nearest to one fifth, \<open>7205759403792794 / 2 ^ 55\<close>, above the maximum.
  The quotient \<^verbatim>\<open>1.0 / maxLoadFactor\<close> rounds to 5, its ceiling is 5, the size found is
  5, which is the number of buckets, and \<^verbatim>\<open>rehash\<close> returns at once: the insertion
  returns with the load factor above the maximum. A size greater than the floor of the
  quotient would be 11.
\<close>

theorem insert_exceeds_load_factor:
  "round_dbl (19999999999999998 / 10 ^ 17) = Finite (7205759403792793 / 2 ^ 55)
   \<and> setMaxLoadFactor 1 (\<lambda>k. k) [5, 11] (HashTable_default [5, 11] :: (nat, nat) HashTable)
       (Finite (7205759403792793 / 2 ^ 55))
     = Inr \<lparr>buckets = [[], [], [], [], []], firstBucketIt = 5, tableSize = 0,
             maxLoadFactor = Finite (7205759403792793 / 2 ^ 55)\<rparr>
   \<and> insert_kv 1 (\<lambda>k. k) [5, 11]
       \<lparr>buckets = [[], [], [], [], []], firstBucketIt = 5, tableSize = 0,
        maxLoadFactor = Finite (7205759403792793 / 2 ^ 55)\<rparr> 1 10
     = Inr (True, \<lparr>buckets = [[], [(1::nat, 10::nat)], [], [], []], firstBucketIt = 1,
                    tableSize = 1, maxLoadFactor = Finite (7205759403792793 / 2 ^ 55)\<rparr>)
   \<and> loadFactor \<lparr>buckets = [[], [(1::nat, 10::nat)], [], [], []], firstBucketIt = 1,
        tableSize = 1, maxLoadFactor = Finite (7205759403792793 / 2 ^ 55)\<rparr>
     = Finite (7205759403792794 / 2 ^ 55)
   \<and> getMaxLoadFactor \<lparr>buckets = [[], [(1::nat, 10::nat)], [], [], []], firstBucketIt = 1,
        tableSize = 1, maxLoadFactor = Finite (7205759403792793 / 2 ^ 55)\<rparr>
     = Finite (7205759403792793 / 2 ^ 55)
   \<and> \<not> dbl_le
        (loadFactor \<lparr>buckets = [[], [(1::nat, 10::nat)], [], [], []], firstBucketIt = 1,
           tableSize = 1, maxLoadFactor = Finite (7205759403792793 / 2 ^ 55)\<rparr>)
        (getMaxLoadFactor \<lparr>buckets = [[], [(1::nat, 10::nat)], [], [], []],
           firstBucketIt = 1, tableSize = 1,
           maxLoadFactor = Finite (7205759403792793 / 2 ^ 55)\<rparr>)
   \<and> dbl_div (of_size 1) (Finite (7205759403792793 / 2 ^ 55)) = Finite 5
   \<and> findMinimumBucketSize [5, 11]
       \<lparr>buckets = [[], [(1::nat, 10::nat)], [], [], []], firstBucketIt = 1,
        tableSize = 1, maxLoadFactor = Finite (7205759403792793 / 2 ^ 55)\<rparr> 10 = Inr 5"
  by code_simp



text \<open>
  C4. \<^verbatim>\<open>HashTable(minBuckets)\<close> is to build an empty table whose number of buckets is
  the smallest size of the table of sizes that is at least \<open>minBuckets\<close>, and to raise
  a range error when there is none. The constructor asks \<^verbatim>\<open>findMinimumBucketSize\<close>
  while the table has no bucket and no entry: the load factor \<open>0 / 0\<close> is not a number,
  the comparison with the maximum fails, and the request comes back as it is. Every
  request \<open>n\<close> gives a table of exactly \<open>n\<close> buckets, and no request raises the range
  error. (The allocation of the buckets, which the library refuses for a request above
  \<^verbatim>\<open>max_size()\<close>, is not part of the model.)
\<close>

theorem HashTable_sized_not_rounded:
  "HashTable_sized sizes n =
     Inr \<lparr>buckets = replicate n [], firstBucketIt = n, tableSize = 0, maxLoadFactor = Finite (1 / 2)\<rparr>"
  by (simp add: table_defs)

text \<open>
  C5. For a key that is not in the table, \<^verbatim>\<open>find\<close> is to return a locator that holds
  the bucket \<open>hash(key) mod bucketCount\<close> the key belongs to. The code returns the end
  iterator: on the default table with the identity as hash function, the keys 3 and 4
  belong to the buckets 3 and 4 and \<^verbatim>\<open>find\<close> returns for both the iterator of bucket
  index 5 (\<^verbatim>\<open>buckets.end()\<close>) and list position \<open>(0, 0)\<close>.
\<close>

theorem find_key_absent_is_end:
  "find_key (\<lambda>k::nat. k) (HashTable_default (5 # rest)) 3
     = Inr (\<lparr>bucketIt = 5, listItBefore = (0, 0), endFlag = True\<rparr>, HashTable_default (5 # rest))
   \<and> find_key (\<lambda>k::nat. k) (HashTable_default (5 # rest)) 4
     = Inr (\<lparr>bucketIt = 5, listItBefore = (0, 0), endFlag = True\<rparr>, HashTable_default (5 # rest))
   \<and> hashKey (\<lambda>k::nat. k) (HashTable_default (5 # rest)) 3 = Inr 3
   \<and> hashKey (\<lambda>k::nat. k) (HashTable_default (5 # rest)) 4 = Inr 4"
  by (simp add: table_defs)

text \<open>
  C6. \<^verbatim>\<open>erase(locator)\<close> is to return the iterator of the entry that follows the erased
  one in the traversal, the end iterator when the erased entry was the last. The code
  returns the locator it was given. In the table of five buckets whose only entry is
  \<open>(3, ''a'')\<close>, \<^verbatim>\<open>find(3)\<close> gives the locator of bucket 3 and position 0; erasing
  through it empties the table and returns this locator, which does not compare equal
  to \<^verbatim>\<open>end()\<close> and has no element behind it.
\<close>

theorem erase_it_last_of_chain:
  "find_key (\<lambda>k::nat. k)
      \<lparr>buckets = [[], [], [], [(3, ''a'')], []], firstBucketIt = 3, tableSize = 1,
       maxLoadFactor = Finite (1 / 2)\<rparr> 3
     = Inr (\<lparr>bucketIt = 3, listItBefore = (3, 0), endFlag = False\<rparr>,
            \<lparr>buckets = [[], [], [], [(3, ''a'')], []], firstBucketIt = 3, tableSize = 1,
             maxLoadFactor = Finite (1 / 2)\<rparr>)
   \<and> erase_it
      \<lparr>buckets = [[], [], [], [(3::nat, ''a'')], []], firstBucketIt = 3, tableSize = 1,
       maxLoadFactor = Finite (1 / 2)\<rparr>
      \<lparr>bucketIt = 3, listItBefore = (3, 0), endFlag = False\<rparr>
     = Inr (\<lparr>bucketIt = 3, listItBefore = (3, 0), endFlag = False\<rparr>,
            \<lparr>buckets = [[], [], [], [], []], firstBucketIt = 5, tableSize = 0,
             maxLoadFactor = Finite (1 / 2)\<rparr>)
   \<and> \<not> it_eq \<lparr>bucketIt = 3, listItBefore = (3, 0), endFlag = False\<rparr>
        (end_it \<lparr>buckets = [[], [], [], [], [] :: (nat \<times> string) list], firstBucketIt = 5,
                 tableSize = 0, maxLoadFactor = Finite (1 / 2)\<rparr>)
   \<and> deref \<lparr>buckets = [[], [], [], [], [] :: (nat \<times> string) list], firstBucketIt = 5,
              tableSize = 0, maxLoadFactor = Finite (1 / 2)\<rparr>
        \<lparr>bucketIt = 3, listItBefore = (3, 0), endFlag = False\<rparr> = Inl undefined_behaviour"
  by (simp add: table_defs scan.simps)

text \<open>
  C7. In a reachable table that holds the key, \<^verbatim>\<open>insert(key, v2)\<close> returns false; the
  table it leaves differs from the old one in one place only, the entry of the key,
  whose value is now \<open>v2\<close>: size, number of buckets and the keys of every chain are
  the same, whatever the nesting bound (no rehash is called). \<^verbatim>\<open>operator[]\<close> then yields
  \<open>v2\<close>. After any completed \<^verbatim>\<open>insert(key, v1)\<close>, a following \<^verbatim>\<open>insert(key, v2)\<close>
  returns false and keeps the size, \<^verbatim>\<open>operator[]\<close> yields \<open>v2\<close>, and the size is 1 when
  the table was empty before.
\<close>

theorem insert_present_overwrites:
  assumes "reachable h sizes t"
  shows "(key \<in> fst ` set (concat (buckets t)) \<longrightarrow>
          (\<exists>p t'. p < length (buckets t ! (h key mod length (buckets t)))
             \<and> fst (buckets t ! (h key mod length (buckets t)) ! p) = key
             \<and> t' = t\<lparr>buckets := (buckets t)[h key mod length (buckets t) :=
                         (buckets t ! (h key mod length (buckets t)))[p := (key, v2)]]\<rparr>
             \<and> insert_kv fuel h sizes t key v2 = Inr (False, t')
             \<and> access fuel' h sizes dflt t' key = Inr (v2, t')
             \<and> size_of t' = size_of t \<and> bucketSize t' = bucketSize t
             \<and> map (map fst) (buckets t') = map (map fst) (buckets t)))
     \<and> (\<forall>v1 r t1. insert_kv fuel h sizes t key v1 = Inr (r, t1) \<longrightarrow>
          (\<exists>t2. insert_kv fuel h sizes t1 key v2 = Inr (False, t2)
             \<and> access fuel' h sizes dflt t2 key = Inr (v2, t2)
             \<and> size_of t2 = size_of t1
             \<and> (concat (buckets t) = [] \<longrightarrow> size_of t2 = 1)))"
proof (intro conjI impI allI)
  from assms have i: "struct_ok h t" by (rule inv_reachable)
  show "\<exists>p t'. p < length (buckets t ! (h key mod length (buckets t)))
       \<and> fst (buckets t ! (h key mod length (buckets t)) ! p) = key
       \<and> t' = t\<lparr>buckets := (buckets t)[h key mod length (buckets t) :=
                   (buckets t ! (h key mod length (buckets t)))[p := (key, v2)]]\<rparr>
       \<and> insert_kv fuel h sizes t key v2 = Inr (False, t')
       \<and> access fuel' h sizes dflt t' key = Inr (v2, t')
       \<and> size_of t' = size_of t \<and> bucketSize t' = bucketSize t
       \<and> map (map fst) (buckets t') = map (map fst) (buckets t)"
    if "key \<in> fst ` set (concat (buckets t))"
    using i that by (rule insert_present)
  fix v1 r t1
  assume ins: "insert_kv fuel h sizes t key v1 = Inr (r, t1)"
  from i have st: "struct_ok h t" by simp
  from ins have ins': "insert_kv_with (rehash fuel h sizes) h t key v1 = Inr (r, t1)"
    by (simp add: insert_kv_def)
  note s = insert_kv_with_sound [OF rehash_is_sound st ins']
  have i1: "struct_ok h t1" using i ins by (rule inv_insert_kv(1))
  have k1: "key \<in> fst ` set (entries t1)"
  proof (cases "key \<in> fst ` set (entries t)")
    case True
    from s(4) [OF True] have "map fst (entries t1) = map fst (entries t)" by simp
    then have "fst ` set (entries t1) = fst ` set (entries t)" by (metis list.set_map)
    with True show ?thesis by simp
  next
    case False
    from s(5) [OF False] have "mset (entries t1) = add_mset (key, v1) (mset (entries t))" by simp
    then have "(key, v1) \<in> set (entries t1)"
      by (metis set_mset_mset union_single_eq_member)
    then show ?thesis by (metis fst_conv image_eqI)
  qed
  from insert_present [where h = h and t = t1 and key = key and v = v2 and fuel = fuel
      and sizes = sizes and fuel' = fuel' and dflt = dflt] i1 k1 [unfolded entries_def]
  obtain t2 where t2: "insert_kv fuel h sizes t1 key v2 = Inr (False, t2)"
      "access fuel' h sizes dflt t2 key = Inr (v2, t2)" "size_of t2 = size_of t1"
    by blast
  have "size_of t2 = 1" if "concat (buckets t) = []"
  proof -
    from that have e: "entries t = []" by (simp add: entries_def)
    then have "key \<notin> fst ` set (entries t)" by simp
    from s(5) [OF this] e have "mset (entries t1) = {#(key, v1)#}" by simp
    then have "length (entries t1) = 1" by (metis size_mset size_single)
    with i1 t2(3) show ?thesis by (simp add: struct_ok_def size_ok_def size_of_def)
  qed
  with t2 show "\<exists>t2. insert_kv fuel h sizes t1 key v2 = Inr (False, t2)
             \<and> access fuel' h sizes dflt t2 key = Inr (v2, t2)
             \<and> size_of t2 = size_of t1
             \<and> (concat (buckets t) = [] \<longrightarrow> size_of t2 = 1)"
    by blast
qed

theorem insert_present_overwrites_witness:
  "reachable (\<lambda>k. k) [5, 11] (HashTable_default [5, 11] :: (nat, nat) HashTable)
   \<and> insert_kv 1 (\<lambda>k. k) [5, 11] (HashTable_default [5, 11]) 3 30
     = Inr (True, \<lparr>buckets = [[], [], [], [(3::nat, 30::nat)], []], firstBucketIt = 3,
                    tableSize = 1, maxLoadFactor = Finite (1 / 2)\<rparr>)
   \<and> insert_kv 1 (\<lambda>k. k) [5, 11]
       \<lparr>buckets = [[], [], [], [(3::nat, 30::nat)], []], firstBucketIt = 3,
        tableSize = 1, maxLoadFactor = Finite (1 / 2)\<rparr> 3 31
     = Inr (False, \<lparr>buckets = [[], [], [], [(3, 31)], []], firstBucketIt = 3,
                     tableSize = 1, maxLoadFactor = Finite (1 / 2)\<rparr>)
   \<and> access 0 (\<lambda>k. k) [5, 11] 0
       \<lparr>buckets = [[], [], [], [(3::nat, 31::nat)], []], firstBucketIt = 3,
        tableSize = 1, maxLoadFactor = Finite (1 / 2)\<rparr> 3
     = Inr (31, \<lparr>buckets = [[], [], [], [(3, 31)], []], firstBucketIt = 3,
                  tableSize = 1, maxLoadFactor = Finite (1 / 2)\<rparr>)
   \<and> size_of \<lparr>buckets = [[], [], [], [(3::nat, 31::nat)], []], firstBucketIt = 3,
                tableSize = 1, maxLoadFactor = Finite (1 / 2)\<rparr> = 1"
proof -
  have r: "reachable (\<lambda>k. k) [5, 11] (HashTable_default [5, 11] :: (nat, nat) HashTable)"
    by (rule reachable.default)
  from insert_present_overwrites [OF r, of 3 31 1 0 0]
  have "\<exists>t2. insert_kv 1 (\<lambda>k. k) [5, 11]
       \<lparr>buckets = [[], [], [], [(3::nat, 30::nat)], []], firstBucketIt = 3,
        tableSize = 1, maxLoadFactor = Finite (1 / 2)\<rparr> 3 31 = Inr (False, t2)
     \<and> access 0 (\<lambda>k. k) [5, 11] 0 t2 3 = Inr (31, t2)
     \<and> size_of t2 = size_of \<lparr>buckets = [[], [], [], [(3::nat, 30::nat)], []], firstBucketIt = 3,
        tableSize = 1, maxLoadFactor = Finite (1 / 2)\<rparr>"
    using example_insert_3 by blast
  with r example_insert_3 example_overwrite_3 show ?thesis
    by (auto simp: size_of_def)
qed

text \<open>
  C8, as stated: \<^verbatim>\<open>setMaxLoadFactor\<close> raises an error of a kind of its own, distinct from
  the out-of-range error. In the code both are \<^verbatim>\<open>std::range_error\<close>, and
  \<^verbatim>\<open>setMaxLoadFactor\<close> raises the one and the other: on the table of five buckets that
  holds one entry, when 5 is the only size, \<^verbatim>\<open>setMaxLoadFactor(0)\<close> raises the error of
  its own test and \<^verbatim>\<open>setMaxLoadFactor(0.125)\<close> the one of \<^verbatim>\<open>findMinimumBucketSize\<close>,
  which finds no size for the bound 8.
\<close>

theorem setMaxLoadFactor_error_class_counterexample:
  "insert_kv 1 (\<lambda>k. k) [5] (HashTable_default [5]) 3 30
     = Inr (True, \<lparr>buckets = [[], [], [], [(3::nat, 30::nat)], []], firstBucketIt = 3,
                    tableSize = 1, maxLoadFactor = Finite (1 / 2)\<rparr>)
   \<and> setMaxLoadFactor 1 (\<lambda>k. k) [5]
       \<lparr>buckets = [[], [], [], [(3::nat, 30::nat)], []], firstBucketIt = 3,
        tableSize = 1, maxLoadFactor = Finite (1 / 2)\<rparr> (Finite 0)
     = Inl (range_error ''invalid load factor!'')
   \<and> setMaxLoadFactor 1 (\<lambda>k. k) [5]
       \<lparr>buckets = [[], [], [], [(3::nat, 30::nat)], []], firstBucketIt = 3,
        tableSize = 1, maxLoadFactor = Finite (1 / 2)\<rparr> (Finite (1 / 8))
     = Inl (range_error ''Out of range.'')
   \<and> is_range_error (range_error ''invalid load factor!'')
   \<and> is_range_error (range_error ''Out of range.'')"
  by code_simp

text \<open>
  C8, amended: \<^verbatim>\<open>setMaxLoadFactor(f)\<close> raises \<^verbatim>\<open>std::range_error\<close> with the message
  \<open>invalid load factor!\<close> exactly when the comparison of doubles \<^verbatim>\<open>f <= 1e-9\<close> is true,
  where \<^verbatim>\<open>1e-9\<close> is the double \<open>4835703278458517 / 2 ^ 82\<close>, the nearest to
  \<open>10 ^ - 9\<close> and a little above it: a finite \<open>f\<close> up to this double and minus infinity
  are refused, plus infinity and a value that is not a number are not. Otherwise the
  call is \<^verbatim>\<open>rehash\<close> at the current number of buckets on the table with the new factor,
  and when it completes the maximum load factor is \<open>f\<close>.
\<close>

theorem setMaxLoadFactor_range_error:
  "(setMaxLoadFactor fuel h sizes t f = Inl (range_error ''invalid load factor!''))
      = dbl_le f double_1e_9
   \<and> double_1e_9 = Finite (4835703278458517 / 2 ^ 82)
   \<and> dbl_le f double_1e_9
      = (case f of Finite x \<Rightarrow> x \<le> 4835703278458517 / 2 ^ 82 | PInf \<Rightarrow> False
         | NInf \<Rightarrow> True | NaN \<Rightarrow> False)
   \<and> (\<not> dbl_le f double_1e_9 \<longrightarrow>
        setMaxLoadFactor fuel h sizes t f
          = rehash fuel h sizes (t\<lparr>maxLoadFactor := f\<rparr>) (bucketSize t))
   \<and> (setMaxLoadFactor fuel h sizes t f = Inr t' \<longrightarrow>
        \<not> dbl_le f double_1e_9 \<and> getMaxLoadFactor t' = f)"
proof (cases "dbl_le f double_1e_9")
  case True
  then show ?thesis
    by (simp add: setMaxLoadFactor_def double_1e_9_value dbl_le_double_1e_9 [symmetric])
next
  case False
  then have eq: "setMaxLoadFactor fuel h sizes t f
      = rehash fuel h sizes (t\<lparr>maxLoadFactor := f\<rparr>) (bucketSize t)"
    by (simp add: setMaxLoadFactor_def bucketSize_def)
  have "rehash fuel h sizes (t\<lparr>maxLoadFactor := f\<rparr>) (bucketSize t)
        \<noteq> Inl (range_error ''invalid load factor!'')
     \<and> (\<forall>t'. rehash fuel h sizes (t\<lparr>maxLoadFactor := f\<rparr>) (bucketSize t) = Inr t'
           \<longrightarrow> maxLoadFactor t' = maxLoadFactor (t\<lparr>maxLoadFactor := f\<rparr>))"
    using rehash_plain [of fuel h sizes] unfolding plain_rehash_def by blast
  with eq False show ?thesis
    by (auto simp: getMaxLoadFactor_def double_1e_9_value dbl_le_double_1e_9 [symmetric])
qed

theorem setMaxLoadFactor_range_error_witness:
  "\<not> dbl_le (Finite (1 / 4)) double_1e_9
   \<and> setMaxLoadFactor 2 (\<lambda>k. k) [5, 11]
       \<lparr>buckets = [[], [], [], [(8::nat, 80::nat), (3, 30)], []], firstBucketIt = 3,
        tableSize = 2, maxLoadFactor = Finite (1 / 2)\<rparr> (Finite (1 / 4))
     = rehash 2 (\<lambda>k. k) [5, 11]
       \<lparr>buckets = [[], [], [], [(8::nat, 80::nat), (3, 30)], []], firstBucketIt = 3,
        tableSize = 2, maxLoadFactor = Finite (1 / 4)\<rparr>
       (bucketSize \<lparr>buckets = [[], [], [], [(8::nat, 80::nat), (3, 30)], []],
          firstBucketIt = 3, tableSize = 2, maxLoadFactor = Finite (1 / 2)\<rparr>)
   \<and> setMaxLoadFactor 2 (\<lambda>k. k) [5, 11]
       \<lparr>buckets = [[], [], [], [(8::nat, 80::nat), (3, 30)], []], firstBucketIt = 3,
        tableSize = 2, maxLoadFactor = Finite (1 / 2)\<rparr> (Finite (1 / 4))
     = Inr \<lparr>buckets = [[], [], [], [(3, 30)], [], [], [], [], [(8, 80)], [], []],
             firstBucketIt = 3, tableSize = 2, maxLoadFactor = Finite (1 / 4)\<rparr>
   \<and> getMaxLoadFactor
       \<lparr>buckets = [[], [], [], [(3::nat, 30::nat)], [], [], [], [], [(8, 80)], [], []],
        firstBucketIt = 3, tableSize = 2, maxLoadFactor = Finite (1 / 4)\<rparr> = Finite (1 / 4)
   \<and> dbl_le (Finite (4835703278458517 / 2 ^ 82)) double_1e_9
   \<and> setMaxLoadFactor 2 (\<lambda>k. k) [5, 11]
       \<lparr>buckets = [[], [], [], [(8::nat, 80::nat), (3, 30)], []], firstBucketIt = 3,
        tableSize = 2, maxLoadFactor = Finite (1 / 2)\<rparr> (Finite (4835703278458517 / 2 ^ 82))
     = Inl (range_error ''invalid load factor!'')"
proof -
  let ?t = "\<lparr>buckets = [[], [], [], [(8::nat, 80::nat), (3, 30)], []], firstBucketIt = 3,
        tableSize = 2, maxLoadFactor = Finite (1 / 2)\<rparr>"
  let ?t' = "\<lparr>buckets = [[], [], [], [(3::nat, 30::nat)], [], [], [], [], [(8, 80)], [], []],
        firstBucketIt = 3, tableSize = 2, maxLoadFactor = Finite (1 / 4)\<rparr>"
  note a = setMaxLoadFactor_range_error [of 2 "\<lambda>k. k" "[5, 11]" ?t "Finite (1 / 4)" ?t']
  note b = setMaxLoadFactor_range_error [of 2 "\<lambda>k. k" "[5, 11]" ?t
      "Finite (4835703278458517 / 2 ^ 82)"]
  have n: "\<not> dbl_le (Finite (1 / 4)) double_1e_9"
    by (simp add: double_1e_9_value)
  have y: "dbl_le (Finite (4835703278458517 / 2 ^ 82)) double_1e_9"
    by (simp add: double_1e_9_value)
  from a have "\<not> dbl_le (Finite (1 / 4)) double_1e_9 \<longrightarrow>
      setMaxLoadFactor 2 (\<lambda>k. k) [5, 11] ?t (Finite (1 / 4))
        = rehash 2 (\<lambda>k. k) [5, 11] (?t\<lparr>maxLoadFactor := Finite (1 / 4)\<rparr>) (bucketSize ?t)"
    by (rule conjunct1 [OF conjunct2 [OF conjunct2 [OF conjunct2]]])
  with n have r: "setMaxLoadFactor 2 (\<lambda>k. k) [5, 11] ?t (Finite (1 / 4))
        = rehash 2 (\<lambda>k. k) [5, 11] (?t\<lparr>maxLoadFactor := Finite (1 / 4)\<rparr>) (bucketSize ?t)"
    by (rule rev_mp)
  from a have "setMaxLoadFactor 2 (\<lambda>k. k) [5, 11] ?t (Finite (1 / 4)) = Inr ?t' \<longrightarrow>
      \<not> dbl_le (Finite (1 / 4)) double_1e_9 \<and> getMaxLoadFactor ?t' = Finite (1 / 4)"
    by (rule conjunct2 [OF conjunct2 [OF conjunct2 [OF conjunct2]]])
  with example_set_factor have g: "getMaxLoadFactor ?t' = Finite (1 / 4)"
    by blast
  from b have "(setMaxLoadFactor 2 (\<lambda>k. k) [5, 11] ?t (Finite (4835703278458517 / 2 ^ 82))
       = Inl (range_error ''invalid load factor!''))
      = dbl_le (Finite (4835703278458517 / 2 ^ 82)) double_1e_9"
    by (rule conjunct1)
  with y have e: "setMaxLoadFactor 2 (\<lambda>k. k) [5, 11] ?t (Finite (4835703278458517 / 2 ^ 82))
       = Inl (range_error ''invalid load factor!'')"
    by simp
  from n r example_set_factor g y e show ?thesis by simp
qed



text \<open>
  C10. \<^verbatim>\<open>find\<close> and \<^verbatim>\<open>contains\<close> leave the table as it is: the table they hand on is
  the table they were given, buckets, size, maximum load factor and first-bucket
  cursor included, and a second call with the same key returns the same result (the
  same iterator, which compares equal to itself with \<^verbatim>\<open>operator==\<close>).
\<close>

theorem find_contains_frame:
  "(find_key h t key = Inr (it, t') \<longrightarrow>
       t' = t \<and> find_key h t' key = Inr (it, t') \<and> it_eq it it)
   \<and> (contains h t key = Inr (b, t'') \<longrightarrow> t'' = t \<and> contains h t'' key = Inr (b, t''))"
  by (auto simp: find_key_def contains_def it_eq_def split: sum.splits option.splits)

theorem find_contains_frame_witness:
  "find_key (\<lambda>k::nat. k)
      \<lparr>buckets = [[], [], [], [(3, ''a'')], []], firstBucketIt = 3, tableSize = 1,
       maxLoadFactor = Finite (1 / 2)\<rparr> 3
     = Inr (\<lparr>bucketIt = 3, listItBefore = (3, 0), endFlag = False\<rparr>,
            \<lparr>buckets = [[], [], [], [(3, ''a'')], []], firstBucketIt = 3, tableSize = 1,
             maxLoadFactor = Finite (1 / 2)\<rparr>)
   \<and> contains (\<lambda>k::nat. k)
      \<lparr>buckets = [[], [], [], [(3, ''a'')], []], firstBucketIt = 3, tableSize = 1,
       maxLoadFactor = Finite (1 / 2)\<rparr> 3
     = Inr (True,
            \<lparr>buckets = [[], [], [], [(3, ''a'')], []], firstBucketIt = 3, tableSize = 1,
             maxLoadFactor = Finite (1 / 2)\<rparr>)
   \<and> it_eq \<lparr>bucketIt = 3, listItBefore = (3, 0), endFlag = False\<rparr>
        \<lparr>bucketIt = 3, listItBefore = (3, 0), endFlag = False\<rparr>"
  using find_contains_frame [of "\<lambda>k::nat. k"
      "\<lparr>buckets = [[], [], [], [(3, ''a'')], []], firstBucketIt = 3, tableSize = 1,
       maxLoadFactor = Finite (1 / 2)\<rparr>" 3
      "\<lparr>bucketIt = 3, listItBefore = (3, 0), endFlag = False\<rparr>"
      "\<lparr>buckets = [[], [], [], [(3, ''a'')], []], firstBucketIt = 3, tableSize = 1,
       maxLoadFactor = Finite (1 / 2)\<rparr>" True
      "\<lparr>buckets = [[], [], [], [(3, ''a'')], []], firstBucketIt = 3, tableSize = 1,
       maxLoadFactor = Finite (1 / 2)\<rparr>"]
  by (simp add: table_defs)

end
